theory Spec2Isabelle
  imports Main
begin

section \<open>Strings and numbers of the JavaScript runtime\<close>

text \<open>
  A JavaScript string is a sequence of UTF-16 code units. The document text, object keys
  and string values are lists of code units (natural numbers below 65536); \<open>str\<close> turns an
  ASCII literal into such a list.
\<close>

type_synonym ustring = "nat list"

definition str :: "string \<Rightarrow> ustring" where
  "str s = map of_char s"

text \<open>The decimal digits of a natural number, most significant first.\<close>

fun digits :: "nat \<Rightarrow> ustring" where
  "digits n = (if n < 10 then [48 + n] else digits (n div 10) @ [48 + n mod 10])"

declare digits.simps [simp del]

text \<open>
  A number is a decimal \<open>Dec m e\<close>, the value \<open>m * 10 ^ e\<close>; \<open>normalise\<close> removes the
  trailing zeros of the mantissa, so that equal values have equal representations. A
  binary64 value stands for the shortest decimal that denotes it, which is the decimal
  \<open>Number::toString\<close> prints. JSON number literals denote decimals exactly: a literal with
  more digits than a binary64 value holds, or beyond its range, is kept here as it is
  written, while the runtime rounds it; that rounding is not part of the model, and
  neither are \<open>NaN\<close> and the infinities, which no JSON text denotes.
\<close>

datatype number = Dec int int

function strip_zeros :: "nat \<Rightarrow> int \<Rightarrow> nat \<times> int" where
  "strip_zeros m e = (if m \<noteq> 0 \<and> m mod 10 = 0 then strip_zeros (m div 10) (e + 1) else (m, e))"
  by pat_completeness auto
termination
  by (relation "measure fst") auto

declare strip_zeros.simps [simp del]

definition normalise :: "number \<Rightarrow> number" where
  "normalise x = (case x of Dec m e \<Rightarrow>
     if m = 0 then Dec 0 0
     else (case strip_zeros (nat \<bar>m\<bar>) e of (m', e') \<Rightarrow>
       Dec (if m < 0 then - int m' else int m') e'))"

definition num_of_nat :: "nat \<Rightarrow> number" where
  "num_of_nat i = normalise (Dec (int i) 0)"

text \<open>
  \<open>Number::toString\<close> in radix 10 (ECMAScript 6.1.6.1.20): with \<open>s\<close> the digits of the
  significand, \<open>k\<close> their count and \<open>n\<close> the position of the decimal point, a number is
  printed positionally when \<open>-6 < n \<le> 21\<close> and in exponent notation otherwise.
\<close>

definition number_to_string :: "number \<Rightarrow> ustring" where
  "number_to_string x = (case normalise x of Dec m e \<Rightarrow>
     if m = 0 then str ''0''
     else
       let s = digits (nat \<bar>m\<bar>);
           k = int (length s);
           n = k + e;
           sign = (if m < 0 then str ''-'' else [])
       in sign @
         (if k \<le> n \<and> n \<le> 21 then s @ replicate (nat (n - k)) 48
          else if 0 < n \<and> n \<le> 21 then take (nat n) s @ str ''.'' @ drop (nat n) s
          else if - 6 < n \<and> n \<le> 0 then str ''0.'' @ replicate (nat (- n)) 48 @ s
          else
            let ex = n - 1;
                es = (if ex < 0 then str ''-'' else str ''+'') @ digits (nat \<bar>ex\<bar>)
            in if k = 1 then s @ str ''e'' @ es
               else take 1 s @ str ''.'' @ drop 1 s @ str ''e'' @ es))"

text \<open>\<open>Array.prototype.join\<close> on an array of strings.\<close>

fun join :: "ustring \<Rightarrow> ustring list \<Rightarrow> ustring" where
  "join sep [] = []"
| "join sep [x] = x"
| "join sep (x # y # r) = x @ sep @ join sep (y # r)"

section \<open>JSON paths\<close>

text \<open>
  A path is an array of segments, each a string or a number (\<open>(string | number)[]\<close>).
  An absent path (\<open>undefined\<close>) is \<open>None\<close>.
\<close>

datatype seg = SNum number | SStr ustring

text \<open>
  \<open>jsonPathToString\<close> of the node modal: \<open>"$"\<close> for an absent or empty path, otherwise
  the segments mapped through the template literals \<open>`${seg}`\<close> (numbers) and
  \<open>`"${seg}"`\<close> (strings), joined by \<open>"]["\<close> inside \<open>"$["\<close> and \<open>"]"\<close>.
\<close>

definition jsonPathToString :: "seg list option \<Rightarrow> ustring" where
  "jsonPathToString path = (case path of
       None \<Rightarrow> str ''$''
     | Some p \<Rightarrow>
         if length p = 0 then str ''$''
         else
           let segments = map (\<lambda>seg. case seg of
                   SNum n \<Rightarrow> number_to_string n
                 | SStr s \<Rightarrow> str ''\"'' @ s @ str ''\"'') p
           in str ''$['' @ join (str '']['') segments @ str '']'')"

text \<open>The rendering of one segment that the specification describes.\<close>

fun render_segment :: "seg \<Rightarrow> ustring" where
  "render_segment (SNum n) = number_to_string n"
| "render_segment (SStr s) = [34] @ s @ [34]"

definition bracketed :: "seg \<Rightarrow> ustring" where
  "bracketed seg = [91] @ render_segment seg @ [93]"

section \<open>JavaScript values\<close>

text \<open>
  The values the code handles: what \<open>JSON.parse\<close> returns (null, booleans, numbers,
  strings, arrays, objects) and \<open>undefined\<close>, which a property read returns for a missing
  property and which fills the holes of an array. An object is the list of its own
  enumerable properties in the order \<open>Object.keys\<close> lists them.
\<close>

datatype jsval =
    JUndefined
  | JNull
  | JBool bool
  | JNum number
  | JStr ustring
  | JArr "jsval list"
  | JObj "(ustring \<times> jsval) list"

datatype exn = SyntaxError | TypeError | RangeError | Error ustring

subsection \<open>Property keys\<close>

definition is_digit :: "nat \<Rightarrow> bool" where
  "is_digit c = (48 \<le> c \<and> c \<le> 57)"

definition nat_of_digits :: "ustring \<Rightarrow> nat" where
  "nat_of_digits ds = foldl (\<lambda>a c. 10 * a + (c - 48)) 0 ds"

text \<open>
  A property key is an array index when it is the canonical decimal form of an integer
  below \<open>2^32 - 1\<close>.
\<close>

definition array_index :: "ustring \<Rightarrow> nat option" where
  "array_index k =
     (if k \<noteq> [] \<and> list_all is_digit k \<and> (hd k \<noteq> 48 \<or> length k = 1)
         \<and> nat_of_digits k < 4294967295
      then Some (nat_of_digits k) else None)"

text \<open>\<open>ToPropertyKey\<close> of a path segment: a number is converted by \<open>Number::toString\<close>.\<close>

fun property_key :: "seg \<Rightarrow> ustring" where
  "property_key (SNum n) = number_to_string n"
| "property_key (SStr s) = s"

text \<open>
  Own properties of an ordinary object are enumerated with the array indices first, in
  ascending order, and then the other keys in the order of their creation. \<open>obj_set\<close> is the
  assignment \<open>obj[k] = v\<close> on the list of own properties: an existing property keeps its
  place, a new one is put where the enumeration will find it.
\<close>

definition goes_before :: "ustring \<Rightarrow> ustring \<Rightarrow> bool" where
  "goes_before k k' = (case array_index k' of
       None \<Rightarrow> True
     | Some j \<Rightarrow> (case array_index k of None \<Rightarrow> False | Some i \<Rightarrow> i < j))"

definition obj_set :: "ustring \<Rightarrow> jsval \<Rightarrow> (ustring \<times> jsval) list \<Rightarrow> (ustring \<times> jsval) list" where
  "obj_set k v kvs =
     (if k \<in> set (map fst kvs) then map (\<lambda>(k', v'). if k' = k then (k', v) else (k', v')) kvs
      else takeWhile (\<lambda>(k', v'). goes_before k' k) kvs @ [(k, v)]
           @ dropWhile (\<lambda>(k', v'). goes_before k' k) kvs)"

subsection \<open>Built-in prototypes\<close>

text \<open>
  The values of a document inherit from the built-in prototypes. \<open>Object.prototype\<close> has
  twelve string-keyed properties; the names of the properties of \<open>Array.prototype\<close>,
  \<open>String.prototype\<close>, \<open>Number.prototype\<close> and \<open>Boolean.prototype\<close> are identifiers.
  The built-in objects are taken as the runtime creates them.
\<close>

definition proto_key :: ustring where
  "proto_key = str ''__proto__''"

definition length_key :: ustring where
  "length_key = str ''length''"

definition object_prototype_names :: "ustring list" where
  "object_prototype_names = map str
     [''constructor'', ''__defineGetter__'', ''__defineSetter__'', ''hasOwnProperty'',
      ''__lookupGetter__'', ''__lookupSetter__'', ''isPrototypeOf'', ''propertyIsEnumerable'',
      ''toString'', ''valueOf'', ''__proto__'', ''toLocaleString'']"

definition is_id_start :: "nat \<Rightarrow> bool" where
  "is_id_start c = ((65 \<le> c \<and> c \<le> 90) \<or> (97 \<le> c \<and> c \<le> 122) \<or> c = 95 \<or> c = 36)"

definition identifier_like :: "ustring \<Rightarrow> bool" where
  "identifier_like k = (k \<noteq> [] \<and> is_id_start (hd k)
      \<and> list_all (\<lambda>c. is_id_start c \<or> is_digit c) k)"

text \<open>
  The assignment \<open>obj[k] = v\<close> on an object that inherits from \<open>Object.prototype\<close>, as
  the objects of a parsed document do. The key \<open>__proto__\<close>, unless the object has it as
  an own property, reaches the setter inherited from \<open>Object.prototype\<close>: no property is
  created (the setter replaces the prototype when \<open>v\<close> is an object, an array or \<open>null\<close>,
  and does nothing otherwise; \<open>Object.keys\<close> and \<open>JSON.stringify\<close> read own properties
  only). Every other key is an own property afterwards.
\<close>

definition obj_assign :: "ustring \<Rightarrow> jsval \<Rightarrow> (ustring \<times> jsval) list \<Rightarrow> (ustring \<times> jsval) list" where
  "obj_assign k v kvs =
     (if k = proto_key \<and> k \<notin> set (map fst kvs) then kvs else obj_set k v kvs)"

text \<open>
  An object that is assigned to more than once may have lost \<open>Object.prototype\<close> in
  between: after \<open>obj.__proto__ = v\<close> with \<open>v\<close> an object, an array or \<open>null\<close>, the prototype
  of \<open>obj\<close> is \<open>v\<close>. A later assignment to \<open>__proto__\<close> still reaches the setter through an
  array, and through an object that has no own property \<open>__proto__\<close>; with the prototype
  \<open>null\<close>, or an object that has an own property \<open>__proto__\<close> (a writable data property),
  it creates an own property of \<open>obj\<close>. Assignments to other keys create or update own
  properties whatever the prototype is, since the properties of the values and of the
  built-in prototypes are writable data properties. The state of such an object is the
  pair of a flag, whether an assignment to \<open>__proto__\<close> reaches the setter, and the list of
  its own properties.
\<close>

definition setter_through :: "jsval \<Rightarrow> bool" where
  "setter_through proto = (case proto of
       JNull \<Rightarrow> False
     | JObj kvs \<Rightarrow> proto_key \<notin> set (map fst kvs)
     | _ \<Rightarrow> True)"

definition is_prototype :: "jsval \<Rightarrow> bool" where
  "is_prototype v = (case v of JNull \<Rightarrow> True | JObj kvs \<Rightarrow> True | JArr xs \<Rightarrow> True | _ \<Rightarrow> False)"

definition assign_property ::
  "ustring \<Rightarrow> jsval \<Rightarrow> bool \<times> (ustring \<times> jsval) list \<Rightarrow> bool \<times> (ustring \<times> jsval) list" where
  "assign_property k v obj = (case obj of (setter, kvs) \<Rightarrow>
     if k = proto_key \<and> k \<notin> set (map fst kvs) \<and> setter
     then (if is_prototype v then setter_through v else True, kvs)
     else (setter, obj_set k v kvs))"

section \<open>JSON.stringify with an indent of two spaces\<close>

text \<open>
  \<open>JSON.stringify(value, null, 2)\<close>, after ECMAScript 25.5.2: \<open>QuoteJSONString\<close> escapes the
  quote, the backslash, the control characters and lone surrogates;
  \<open>SerializeJSONProperty\<close> returns \<open>undefined\<close> (\<open>None\<close>) for \<open>undefined\<close>; an array prints
  \<open>null\<close> for such an element and an object leaves such a member out. The values have no
  \<open>toJSON\<close> method, and a string may be as long as it needs to be: the limits of an
  engine are not modelled.
\<close>

definition hex_digit :: "nat \<Rightarrow> nat" where
  "hex_digit d = (if d < 10 then 48 + d else 87 + d)"

definition UnicodeEscape :: "nat \<Rightarrow> ustring" where
  "UnicodeEscape c = [92, 117] @
     [hex_digit (c div 4096 mod 16), hex_digit (c div 256 mod 16),
      hex_digit (c div 16 mod 16), hex_digit (c mod 16)]"

definition is_lead :: "nat \<Rightarrow> bool" where
  "is_lead c = (55296 \<le> c \<and> c \<le> 56319)"

definition is_trail :: "nat \<Rightarrow> bool" where
  "is_trail c = (56320 \<le> c \<and> c \<le> 57343)"

definition quote_unit :: "nat \<Rightarrow> ustring" where
  "quote_unit c =
    (if c = 8 then [92, 98] else if c = 9 then [92, 116] else if c = 10 then [92, 110]
     else if c = 12 then [92, 102] else if c = 13 then [92, 114]
     else if c = 34 then [92, 34] else if c = 92 then [92, 92]
     else if c < 32 \<or> is_lead c \<or> is_trail c then UnicodeEscape c
     else [c])"

fun quote_units :: "ustring \<Rightarrow> ustring" where
  "quote_units [] = []"
| "quote_units [c] = quote_unit c"
| "quote_units (c # d # r) =
     (if is_lead c \<and> is_trail d then c # d # quote_units r
      else quote_unit c @ quote_units (d # r))"

definition QuoteJSONString :: "ustring \<Rightarrow> ustring" where
  "QuoteJSONString s = [34] @ quote_units s @ [34]"

definition gap :: ustring where
  "gap = str ''  ''"

fun SerializeJSONProperty :: "ustring \<Rightarrow> jsval \<Rightarrow> ustring option"
  and SerializeJSONArray :: "ustring \<Rightarrow> jsval list \<Rightarrow> ustring list"
  and SerializeJSONObject :: "ustring \<Rightarrow> (ustring \<times> jsval) list \<Rightarrow> ustring list"
where
  "SerializeJSONProperty ind JUndefined = None"
| "SerializeJSONProperty ind JNull = Some (str ''null'')"
| "SerializeJSONProperty ind (JBool b) = Some (if b then str ''true'' else str ''false'')"
| "SerializeJSONProperty ind (JNum n) = Some (number_to_string n)"
| "SerializeJSONProperty ind (JStr s) = Some (QuoteJSONString s)"
| "SerializeJSONProperty stepback (JArr xs) =
     (let ind = stepback @ gap; partial = SerializeJSONArray ind xs
      in Some (if partial = [] then str ''[]''
         else str ''['' @ [10] @ ind @ join (str '','' @ [10] @ ind) partial
              @ [10] @ stepback @ str '']''))"
| "SerializeJSONProperty stepback (JObj kvs) =
     (let ind = stepback @ gap; partial = SerializeJSONObject ind kvs
      in Some (if partial = [] then str ''{}''
         else str ''{'' @ [10] @ ind @ join (str '','' @ [10] @ ind) partial
              @ [10] @ stepback @ str ''}''))"
| "SerializeJSONArray ind [] = []"
| "SerializeJSONArray ind (x # xs) =
     (case SerializeJSONProperty ind x of None \<Rightarrow> str ''null'' | Some s \<Rightarrow> s)
       # SerializeJSONArray ind xs"
| "SerializeJSONObject ind [] = []"
| "SerializeJSONObject ind ((k, v) # kvs) =
     (case SerializeJSONProperty ind v of
        None \<Rightarrow> SerializeJSONObject ind kvs
      | Some s \<Rightarrow> (QuoteJSONString k @ str '': '' @ s) # SerializeJSONObject ind kvs)"

definition JSON_stringify :: "jsval \<Rightarrow> ustring option" where
  "JSON_stringify v = SerializeJSONProperty [] v"

section \<open>JSON.parse\<close>

text \<open>
  \<open>JSON.parse\<close> accepts the JSON grammar (ECMA-404): white space is tab, line feed,
  carriage return and space; a string may not contain a raw control character; a number
  has no leading zero. The values of an object are stored with \<open>obj_set\<close>, so a repeated key
  keeps its first place and its last value. The parser recurses on values, elements and
  members with a fuel that \<open>JSON_parse\<close> sets from the length of the text; it never runs
  out (lemma \<open>JSON_parse_fuel\<close>), so every failure is a \<open>SyntaxError\<close>.
\<close>

definition is_ws :: "nat \<Rightarrow> bool" where
  "is_ws c = (c = 9 \<or> c = 10 \<or> c = 13 \<or> c = 32)"

definition skip_ws :: "ustring \<Rightarrow> ustring" where
  "skip_ws s = dropWhile is_ws s"

definition hex_value :: "nat \<Rightarrow> nat option" where
  "hex_value c =
     (if 48 \<le> c \<and> c \<le> 57 then Some (c - 48)
      else if 97 \<le> c \<and> c \<le> 102 then Some (c - 87)
      else if 65 \<le> c \<and> c \<le> 70 then Some (c - 55)
      else None)"

definition unescape :: "nat \<Rightarrow> nat option" where
  "unescape e =
     (if e = 34 then Some 34 else if e = 92 then Some 92 else if e = 47 then Some 47
      else if e = 98 then Some 8 else if e = 102 then Some 12 else if e = 110 then Some 10
      else if e = 114 then Some 13 else if e = 116 then Some 9 else None)"

definition hex4 :: "nat \<Rightarrow> nat \<Rightarrow> nat \<Rightarrow> nat \<Rightarrow> nat option" where
  "hex4 h1 h2 h3 h4 =
     (case (hex_value h1, hex_value h2, hex_value h3, hex_value h4) of
        (Some a, Some b, Some c, Some d) \<Rightarrow> Some (4096 * a + 256 * b + 16 * c + d)
      | _ \<Rightarrow> None)"

definition cons_unit :: "nat \<Rightarrow> (ustring \<times> ustring) option \<Rightarrow> (ustring \<times> ustring) option" where
  "cons_unit u r = (case r of None \<Rightarrow> None | Some (s, rest) \<Rightarrow> Some (u # s, rest))"

fun parse_chars :: "ustring \<Rightarrow> (ustring \<times> ustring) option" where
  "parse_chars [] = None"
| "parse_chars (c # cs) =
     (if c = 34 then Some ([], cs)
      else if c = 92 then
        (case cs of
           [] \<Rightarrow> None
         | e # r \<Rightarrow>
             if e = 117 then
               (case r of
                  h1 # h2 # h3 # h4 # r' \<Rightarrow>
                    (case hex4 h1 h2 h3 h4 of
                       None \<Rightarrow> None
                     | Some u \<Rightarrow> cons_unit u (parse_chars r'))
                | _ \<Rightarrow> None)
             else
               (case unescape e of
                  None \<Rightarrow> None
                | Some u \<Rightarrow> cons_unit u (parse_chars r)))
      else if c < 32 then None
      else cons_unit c (parse_chars cs))"

definition parse_exponent :: "ustring \<Rightarrow> (int \<times> ustring) option" where
  "parse_exponent s = (case s of
       [] \<Rightarrow> Some (0, s)
     | c # r \<Rightarrow>
         if c = 101 \<or> c = 69 then
           (let (neg, r') = (case r of
                    [] \<Rightarrow> (False, r)
                  | d # t \<Rightarrow> if d = 45 then (True, t) else if d = 43 then (False, t)
                             else (False, r));
                ds = takeWhile is_digit r'
            in if ds = [] then None
               else Some ((if neg then - int (nat_of_digits ds) else int (nat_of_digits ds)),
                          dropWhile is_digit r'))
         else Some (0, s))"

definition parse_fraction :: "ustring \<Rightarrow> (ustring \<times> ustring) option" where
  "parse_fraction s = (case s of
       [] \<Rightarrow> Some ([], s)
     | c # r \<Rightarrow>
         if c = 46 then
           (let ds = takeWhile is_digit r
            in if ds = [] then None else Some (ds, dropWhile is_digit r))
         else Some ([], s))"

definition parse_number :: "ustring \<Rightarrow> (number \<times> ustring) option" where
  "parse_number s =
     (let (neg, s1) = (case s of [] \<Rightarrow> (False, s) | c # r \<Rightarrow> if c = 45 then (True, r) else (False, s));
          ip = takeWhile is_digit s1;
          s2 = dropWhile is_digit s1
      in if ip = [] \<or> (hd ip = 48 \<and> length ip \<noteq> 1) then None
         else
           (case parse_fraction s2 of
              None \<Rightarrow> None
            | Some (fp, s3) \<Rightarrow>
                (case parse_exponent s3 of
                   None \<Rightarrow> None
                 | Some (ex, s4) \<Rightarrow>
                     let m = int (nat_of_digits (ip @ fp))
                     in Some (normalise (Dec (if neg then - m else m) (ex - int (length fp))), s4))))"

definition expect :: "ustring \<Rightarrow> ustring \<Rightarrow> ustring option" where
  "expect lit s = (if take (length lit) s = lit then Some (drop (length lit) s) else None)"

datatype 'a parsed = Got 'a ustring | Bad | NoFuel

fun parse_value :: "nat \<Rightarrow> ustring \<Rightarrow> jsval parsed"
  and parse_elements :: "nat \<Rightarrow> ustring \<Rightarrow> jsval list \<Rightarrow> jsval parsed"
  and parse_members :: "nat \<Rightarrow> ustring \<Rightarrow> (ustring \<times> jsval) list \<Rightarrow> jsval parsed"
where
  "parse_value 0 s = NoFuel"
| "parse_value (Suc f) s = (case skip_ws s of
       [] \<Rightarrow> Bad
     | c # cs \<Rightarrow>
         if c = 123 then
           (case skip_ws cs of
              [] \<Rightarrow> Bad
            | d # r \<Rightarrow> if d = 125 then Got (JObj []) r else parse_members f cs [])
         else if c = 91 then
           (case skip_ws cs of
              [] \<Rightarrow> Bad
            | d # r \<Rightarrow> if d = 93 then Got (JArr []) r else parse_elements f cs [])
         else if c = 34 then
           (case parse_chars cs of None \<Rightarrow> Bad | Some (s', r) \<Rightarrow> Got (JStr s') r)
         else if c = 116 then
           (case expect (str ''true'') (c # cs) of None \<Rightarrow> Bad | Some r \<Rightarrow> Got (JBool True) r)
         else if c = 102 then
           (case expect (str ''false'') (c # cs) of None \<Rightarrow> Bad | Some r \<Rightarrow> Got (JBool False) r)
         else if c = 110 then
           (case expect (str ''null'') (c # cs) of None \<Rightarrow> Bad | Some r \<Rightarrow> Got JNull r)
         else
           (case parse_number (c # cs) of None \<Rightarrow> Bad | Some (n, r) \<Rightarrow> Got (JNum n) r))"
| "parse_elements 0 s acc = NoFuel"
| "parse_elements (Suc f) s acc = (case parse_value f s of
       NoFuel \<Rightarrow> NoFuel
     | Bad \<Rightarrow> Bad
     | Got v r \<Rightarrow>
         (case skip_ws r of
            [] \<Rightarrow> Bad
          | d # t \<Rightarrow>
              if d = 44 then parse_elements f t (acc @ [v])
              else if d = 93 then Got (JArr (acc @ [v])) t
              else Bad))"
| "parse_members 0 s acc = NoFuel"
| "parse_members (Suc f) s acc = (case skip_ws s of
       [] \<Rightarrow> Bad
     | q # cs \<Rightarrow>
         if q \<noteq> 34 then Bad
         else
           (case parse_chars cs of
              None \<Rightarrow> Bad
            | Some (k, r) \<Rightarrow>
                (case skip_ws r of
                   [] \<Rightarrow> Bad
                 | colon # r' \<Rightarrow>
                     if colon \<noteq> 58 then Bad
                     else
                       (case parse_value f r' of
                          NoFuel \<Rightarrow> NoFuel
                        | Bad \<Rightarrow> Bad
                        | Got v r'' \<Rightarrow>
                            (case skip_ws r'' of
                               [] \<Rightarrow> Bad
                             | d # t \<Rightarrow>
                                 if d = 44 then parse_members f t (obj_set k v acc)
                                 else if d = 125 then Got (JObj (obj_set k v acc)) t
                                 else Bad)))))"

definition JSON_parse :: "ustring \<Rightarrow> exn + jsval" where
  "JSON_parse s = (case parse_value (2 * length s + 1) s of
       Got v r \<Rightarrow> if skip_ws r = [] then Inr v else Inl SyntaxError
     | _ \<Rightarrow> Inl SyntaxError)"

section \<open>The node modal: content of a node\<close>

text \<open>
  A node of the graph holds its rows and its path. The declarations of \<open>NodeData\<close> and of
  its rows are not among the sources; the fields are the ones \<open>buildContentFromNode\<close> and
  \<open>handleSave\<close> read: a row has a key (a string or \<open>null\<close>), a value and a type tag.
\<close>

record NodeRow =
  row_key :: "ustring option"
  row_value :: jsval
  row_type :: ustring

record NodeData =
  node_text :: "NodeRow list"
  node_path :: "seg list option"

text \<open>\<open>row.key\<close> as a condition: \<open>null\<close> and the empty string are falsy.\<close>

definition truthy_key :: "ustring option \<Rightarrow> bool" where
  "truthy_key k = (case k of None \<Rightarrow> False | Some s \<Rightarrow> s \<noteq> [])"

text \<open>
  \<open>buildContentFromNode\<close>. The result is \<open>None\<close> where the function returns what
  \<open>JSON.stringify\<close> returned for \<open>undefined\<close>.
\<close>

definition buildContentFromNode :: "NodeData option \<Rightarrow> ustring option" where
  "buildContentFromNode node = (case node of
       None \<Rightarrow> Some []
     | Some n \<Rightarrow>
         if length (node_text n) = 0 then Some []
         else
           let rows = node_text n in
           if length rows = 1 \<and> \<not> truthy_key (row_key (rows ! 0)) then
             (let v = row_value (rows ! 0)
              in case v of JStr s \<Rightarrow> Some s | _ \<Rightarrow> JSON_stringify v)
           else
             let obj = foldl (\<lambda>obj row.
                   if truthy_key (row_key row) \<and> row_type row \<noteq> str ''array''
                      \<and> row_type row \<noteq> str ''object''
                   then assign_property (the (row_key row)) (row_value row) obj
                   else obj) (True, []) rows
             in if length (map fst (snd obj)) \<noteq> 0 then JSON_stringify (JObj (snd obj))
                else Some [])"

text \<open>
  The description of the content: the rows whose key is truthy and whose type is no
  container, the own properties of the object made by assigning them in order, and for
  each key the value of the last such row.
\<close>

definition scalar_row :: "NodeRow \<Rightarrow> bool" where
  "scalar_row row = (truthy_key (row_key row) \<and> row_type row \<noteq> str ''array''
      \<and> row_type row \<noteq> str ''object'')"

definition object_state :: "NodeRow list \<Rightarrow> bool \<times> (ustring \<times> jsval) list" where
  "object_state rows =
     foldl (\<lambda>obj row. assign_property (the (row_key row)) (row_value row) obj) (True, [])
       (filter scalar_row rows)"

definition object_of_rows :: "NodeRow list \<Rightarrow> (ustring \<times> jsval) list" where
  "object_of_rows rows = snd (object_state rows)"

definition last_value :: "NodeRow list \<Rightarrow> ustring \<Rightarrow> jsval option" where
  "last_value rows k =
     (let named = filter (\<lambda>row. scalar_row row \<and> row_key row = Some k) rows
      in if named = [] then None else Some (row_value (last named)))"

definition content_of_rows :: "NodeRow list \<Rightarrow> ustring option" where
  "content_of_rows rows =
     (if object_of_rows rows = [] then Some []
      else JSON_stringify (JObj (object_of_rows rows)))"

definition content_of_value :: "jsval \<Rightarrow> ustring option" where
  "content_of_value v = (case v of JStr s \<Rightarrow> Some s | _ \<Rightarrow> JSON_stringify v)"

section \<open>Reading and writing properties\<close>

text \<open>
  How a piece of code completes: normally, by a \<open>return\<close> statement, or by a thrown
  exception. \<open>Beyond\<close> marks a run that leaves what is modelled: a read that may find a
  property inherited from a built-in prototype (the next step would read or write a
  built-in object), and an array length given as a string, an array or an object. On an
  object such a read is one of a name of \<open>Object.prototype\<close> that the object does not have
  itself; on an array and a string it is one of any identifier other than \<open>length\<close>, on a
  number and a boolean one of any identifier, whether a built-in prototype has a property
  of that name or not.
\<close>

datatype 'a completion = Normal 'a | Returned | Thrown exn | Beyond

text \<open>
  The read \<open>cursor[key]\<close>. Reading a property of \<open>null\<close> or \<open>undefined\<close> throws a
  \<open>TypeError\<close>. An object has its members, an array its elements and its \<open>length\<close>, a
  string its characters and its \<open>length\<close>; a key that is neither an own property nor
  inherited reads as \<open>undefined\<close>.
\<close>

definition get_prop :: "jsval \<Rightarrow> ustring \<Rightarrow> jsval completion" where
  "get_prop cursor key = (case cursor of
       JUndefined \<Rightarrow> Thrown TypeError
     | JNull \<Rightarrow> Thrown TypeError
     | JObj kvs \<Rightarrow>
         (case map_of kvs key of
            Some v \<Rightarrow> Normal v
          | None \<Rightarrow> if key \<in> set object_prototype_names then Beyond else Normal JUndefined)
     | JArr xs \<Rightarrow>
         (case array_index key of
            Some i \<Rightarrow> Normal (if i < length xs then xs ! i else JUndefined)
          | None \<Rightarrow>
              if key = length_key then Normal (JNum (num_of_nat (length xs)))
              else if identifier_like key then Beyond
              else Normal JUndefined)
     | JStr s \<Rightarrow>
         (case array_index key of
            Some i \<Rightarrow> Normal (if i < length s then JStr [s ! i] else JUndefined)
          | None \<Rightarrow>
              if key = length_key then Normal (JNum (num_of_nat (length s)))
              else if identifier_like key then Beyond
              else Normal JUndefined)
     | _ \<Rightarrow> if identifier_like key then Beyond else Normal JUndefined)"

text \<open>
  Setting the \<open>length\<close> of an array (\<open>ArraySetLength\<close>): the value is converted to a
  number, which must be an integer from 0 to \<open>2^32 - 1\<close>, or a \<open>RangeError\<close> is thrown. The
  array is cut, or extended with holes.
\<close>

definition resize :: "nat \<Rightarrow> jsval list \<Rightarrow> jsval list" where
  "resize n xs = take n xs @ replicate (n - length xs) JUndefined"

definition array_set_length :: "jsval list \<Rightarrow> jsval \<Rightarrow> jsval completion" where
  "array_set_length xs v = (case v of
       JNum n \<Rightarrow>
         (case normalise n of Dec m e \<Rightarrow>
            if 0 \<le> m \<and> 0 \<le> e \<and> m * 10 ^ nat e \<le> 4294967295
            then Normal (JArr (resize (nat (m * 10 ^ nat e)) xs))
            else Thrown RangeError)
     | JNull \<Rightarrow> Normal (JArr [])
     | JBool b \<Rightarrow> Normal (JArr (resize (if b then 1 else 0) xs))
     | JUndefined \<Rightarrow> Thrown RangeError
     | _ \<Rightarrow> Beyond)"

text \<open>
  The assignment \<open>cursor[key] = v\<close> in strict code (the sources are modules). On \<open>null\<close>
  and \<open>undefined\<close> it throws a \<open>TypeError\<close>. On a boolean, a number or a string it throws
  a \<open>TypeError\<close> too, except for the key \<open>__proto__\<close>, whose setter returns without doing
  anything. On an array an index sets an element, past the end after as many holes as
  needed; \<open>length\<close> sets the length; any other key adds a property that is no element, or
  reaches the \<open>__proto__\<close> setter, and leaves the elements as they are. On an object it is
  \<open>obj_assign\<close>.
\<close>

definition put_prop :: "jsval \<Rightarrow> ustring \<Rightarrow> jsval \<Rightarrow> jsval completion" where
  "put_prop cursor key v = (case cursor of
       JUndefined \<Rightarrow> Thrown TypeError
     | JNull \<Rightarrow> Thrown TypeError
     | JArr xs \<Rightarrow>
         (case array_index key of
            Some i \<Rightarrow>
              Normal (JArr (if i < length xs then xs[i := v]
                            else xs @ replicate (i - length xs) JUndefined @ [v]))
          | None \<Rightarrow> if key = length_key then array_set_length xs v else Normal (JArr xs))
     | JObj kvs \<Rightarrow> Normal (JObj (obj_assign key v kvs))
     | _ \<Rightarrow> if key = proto_key then Normal cursor else Thrown TypeError)"

text \<open>
  The cursor of the write is a reference into the clone: the object it points to is the
  one at the address made of the keys walked so far, and the assignment through the cursor
  changes the clone there. \<open>replace_at\<close> puts the new content of that object at its address.
\<close>

fun replace_at :: "jsval \<Rightarrow> seg list \<Rightarrow> jsval \<Rightarrow> jsval" where
  "replace_at root [] new = new"
| "replace_at root (key # keys) new = (case root of
       JArr xs \<Rightarrow>
         (case array_index (property_key key) of
            None \<Rightarrow> root
          | Some i \<Rightarrow>
              if i < length xs then JArr (xs[i := replace_at (xs ! i) keys new]) else root)
     | JObj kvs \<Rightarrow>
         JObj (map (\<lambda>(k, v). if k = property_key key then (k, replace_at v keys new) else (k, v)) kvs)
     | _ \<Rightarrow> root)"

text \<open>\<open>String.prototype.trim\<close> removes white space and line terminators at both ends.\<close>

definition is_js_space :: "nat \<Rightarrow> bool" where
  "is_js_space c = ((9 \<le> c \<and> c \<le> 13) \<or> c = 32 \<or> c = 160 \<or> c = 5760
      \<or> (8192 \<le> c \<and> c \<le> 8202) \<or> c = 8232 \<or> c = 8233 \<or> c = 8239 \<or> c = 8287
      \<or> c = 12288 \<or> c = 65279)"

definition trim :: "ustring \<Rightarrow> ustring" where
  "trim s = rev (dropWhile is_js_space (rev (dropWhile is_js_space s)))"

section \<open>The store: useJson\<close>

text \<open>
  The state of the store, with the text that \<open>setJson\<close> hands to the graph store
  (\<open>useGraph.getState().setGraph(json)\<close>); the graph itself is derived from that text by
  code that is not among the sources.
\<close>

record JsonStates =
  json :: ustring
  loading :: bool
  graph :: ustring

definition getJson :: "JsonStates \<Rightarrow> ustring" where
  "getJson st = json st"

definition setJson :: "ustring \<Rightarrow> JsonStates \<Rightarrow> JsonStates" where
  "setJson j st = st\<lparr>json := j, loading := False, graph := j\<rparr>"

text \<open>\<open>JSON.parse(JSON.stringify(root))\<close>; \<open>JSON.parse(undefined)\<close> is a \<open>SyntaxError\<close>.\<close>

definition deep_clone :: "jsval \<Rightarrow> exn + jsval" where
  "deep_clone root = (case JSON_stringify root of
       None \<Rightarrow> Inl SyntaxError
     | Some s \<Rightarrow> JSON_parse s)"

text \<open>
  The loop of \<open>updateValueAtPath\<close> over the segments before the last: it returns from the
  function at the first key that reads as \<open>undefined\<close>.
\<close>

fun walk_store :: "jsval \<Rightarrow> seg list \<Rightarrow> jsval completion" where
  "walk_store cursor [] = Normal cursor"
| "walk_store cursor (key # keys) = (case get_prop cursor (property_key key) of
       Normal next \<Rightarrow> if next = JUndefined then Returned else walk_store next keys
     | Returned \<Rightarrow> Returned
     | Thrown e \<Rightarrow> Thrown e
     | Beyond \<Rightarrow> Beyond)"

text \<open>
  The body of the \<open>try\<close> block of \<open>updateValueAtPath\<close>, up to the string handed to
  \<open>setJson\<close>. \<open>JSON.stringify\<close> returns a string for every value but \<open>undefined\<close>, which
  the clone never is; the branch for \<open>undefined\<close> is there for totality.
\<close>

definition store_try :: "ustring \<Rightarrow> seg list \<Rightarrow> jsval \<Rightarrow> ustring completion" where
  "store_try current path newValue = (case JSON_parse current of
       Inl e \<Rightarrow> Thrown e
     | Inr root \<Rightarrow>
         (case deep_clone root of
            Inl e \<Rightarrow> Thrown e
          | Inr cloned \<Rightarrow>
              (case walk_store cloned (take (length path - 1) path) of
                 Thrown e \<Rightarrow> Thrown e
               | Returned \<Rightarrow> Returned
               | Beyond \<Rightarrow> Beyond
               | Normal cursor \<Rightarrow>
                   let lastKey = path ! (length path - 1) in
                   (case put_prop cursor (property_key lastKey) newValue of
                      Thrown e \<Rightarrow> Thrown e
                    | Returned \<Rightarrow> Returned
                    | Beyond \<Rightarrow> Beyond
                    | Normal cursor' \<Rightarrow>
                        (case JSON_stringify
                            (replace_at cloned (take (length path - 1) path) cursor') of
                           None \<Rightarrow> Thrown TypeError
                         | Some updatedJson \<Rightarrow> Normal updatedJson)))))"

text \<open>
  \<open>updateValueAtPath\<close>, with a new value that is a JSON value or \<open>undefined\<close>. The
  result is \<open>None\<close> for a run that leaves what is modelled.
\<close>

definition updateValueAtPath :: "seg list option \<Rightarrow> jsval \<Rightarrow> JsonStates \<Rightarrow> JsonStates option" where
  "updateValueAtPath path newValue st =
     (let current = json st in
      if path = None \<or> length (the path) = 0 \<or> trim current = [] then Some st
      else
        (case store_try current (the path) newValue of
           Normal updatedJson \<Rightarrow> Some (setJson updatedJson st)
         | Returned \<Rightarrow> Some st
         | Thrown e \<Rightarrow> Some st
         | Beyond \<Rightarrow> None))"

section \<open>The node modal: saving an edit\<close>






section \<open>Paths in a document\<close>

text \<open>
  The segments before the last and the key of the last segment of a non-empty path.
\<close>

definition parent_keys :: "seg list \<Rightarrow> seg list" where
  "parent_keys path = take (length path - 1) path"

definition last_key :: "seg list \<Rightarrow> ustring" where
  "last_key path = property_key (path ! (length path - 1))"

text \<open>
  \<open>resolve\<close> follows a path through a value as long as every segment reads an existing
  value: it ends at the value reached, at a segment that reads nothing (\<open>undefined\<close>, or a
  property of \<open>null\<close>), or at a segment that names an inherited property.
\<close>

datatype resolution = Resolved jsval | Unresolved | Inherited

fun resolve :: "jsval \<Rightarrow> seg list \<Rightarrow> resolution" where
  "resolve v [] = Resolved v"
| "resolve v (k # ks) = (case get_prop v (property_key k) of
       Normal x \<Rightarrow> if x = JUndefined then Unresolved else resolve x ks
     | Beyond \<Rightarrow> Inherited
     | _ \<Rightarrow> Unresolved)"






text \<open>
  What the \<open>try\<close> blocks do once the segments before the last have been walked: assign
  through the cursor, serialize the clone.
\<close>

definition commit :: "jsval \<Rightarrow> seg list \<Rightarrow> jsval \<Rightarrow> jsval completion \<Rightarrow> ustring completion" where
  "commit root path newValue walked = (case walked of
       Normal cursor \<Rightarrow>
         (case put_prop cursor (last_key path) newValue of
            Normal cursor' \<Rightarrow>
              (case JSON_stringify (replace_at root (parent_keys path) cursor') of
                 None \<Rightarrow> Thrown TypeError
               | Some updatedJson \<Rightarrow> Normal updatedJson)
          | Returned \<Rightarrow> Returned
          | Thrown e \<Rightarrow> Thrown e
          | Beyond \<Rightarrow> Beyond)
     | Returned \<Rightarrow> Returned
     | Thrown e \<Rightarrow> Thrown e
     | Beyond \<Rightarrow> Beyond)"


section \<open>The write as the specification words it\<close>




section \<open>Well-formed values\<close>

text \<open>
  The list of an object's properties represents a JavaScript object when its keys are
  distinct and in enumeration order: array indices first, ascending, then the other keys.
\<close>

fun js_ordered :: "ustring list \<Rightarrow> bool" where
  "js_ordered [] = True"
| "js_ordered (k # ks) = (list_all (\<lambda>k'. k \<noteq> k' \<and> goes_before k k') ks \<and> js_ordered ks)"

fun well_formed :: "jsval \<Rightarrow> bool"
  and well_formed_elems :: "jsval list \<Rightarrow> bool"
  and well_formed_members :: "(ustring \<times> jsval) list \<Rightarrow> bool"
where
  "well_formed (JArr xs) = well_formed_elems xs"
| "well_formed (JObj kvs) = (js_ordered (map fst kvs) \<and> well_formed_members kvs)"
| "well_formed JUndefined = True"
| "well_formed JNull = True"
| "well_formed (JBool b) = True"
| "well_formed (JNum n) = True"
| "well_formed (JStr s) = True"
| "well_formed_elems [] = True"
| "well_formed_elems (x # xs) = (well_formed x \<and> well_formed_elems xs)"
| "well_formed_members [] = True"
| "well_formed_members ((k, v) # kvs) = (well_formed v \<and> well_formed_members kvs)"

text \<open>
  What \<open>JSON.stringify\<close> keeps of a value: an \<open>undefined\<close> element of an array becomes
  \<open>null\<close>, an \<open>undefined\<close> member of an object is dropped, and a number is the canonical
  decimal of its value.
\<close>

fun norm :: "jsval \<Rightarrow> jsval"
  and norm_elems :: "jsval list \<Rightarrow> jsval list"
  and norm_members :: "(ustring \<times> jsval) list \<Rightarrow> (ustring \<times> jsval) list"
where
  "norm (JArr xs) = JArr (norm_elems xs)"
| "norm (JObj kvs) = JObj (norm_members kvs)"
| "norm (JNum n) = JNum (normalise n)"
| "norm JUndefined = JUndefined"
| "norm JNull = JNull"
| "norm (JBool b) = JBool b"
| "norm (JStr s) = JStr s"
| "norm_elems [] = []"
| "norm_elems (x # xs) = (if x = JUndefined then JNull else norm x) # norm_elems xs"
| "norm_members [] = []"
| "norm_members ((k, v) # kvs) =
     (if v = JUndefined then norm_members kvs else (k, norm v) # norm_members kvs)"

text \<open>
  A JSON value: a well-formed value that \<open>JSON.stringify\<close> keeps as it is, so one without
  \<open>undefined\<close> in it.
\<close>

definition json_value :: "jsval \<Rightarrow> bool" where
  "json_value v = (well_formed v \<and> norm v = v \<and> v \<noteq> JUndefined)"

definition canonical :: "number \<Rightarrow> bool" where
  "canonical x = (case x of Dec m e \<Rightarrow> if m = 0 then e = 0 else nat \<bar>m\<bar> mod 10 \<noteq> 0)"

text \<open>
  What follows a value in the output of \<open>JSON.stringify\<close>: the end of the text, a comma or
  a line feed; none of them continues a number.
\<close>

definition stop :: "ustring \<Rightarrow> bool" where
  "stop rest = (case rest of [] \<Rightarrow> True | c # cs \<Rightarrow> c = 44 \<or> c = 10)"

definition nstop :: "ustring \<Rightarrow> bool" where
  "nstop t = (t = [] \<or> (\<not> is_digit (hd t) \<and> hd t \<noteq> 46 \<and> hd t \<noteq> 101 \<and> hd t \<noteq> 69))"

text \<open>The first character of a serialized value opens a value.\<close>

definition opens :: "nat \<Rightarrow> bool" where
  "opens c = (\<not> is_ws c \<and> c \<noteq> 93 \<and> c \<noteq> 125)"

section \<open>JSON.parse inverts JSON.stringify\<close>

subsection \<open>Digits\<close>

lemma digits_not_Nil: "digits n \<noteq> []"
  by (subst digits.simps) simp

lemma digits_all: "list_all is_digit (digits n)"
proof (induction n rule: digits.induct)
  case (1 n)
  show ?case
  proof (cases "n < 10")
    case True
    then show ?thesis by (subst digits.simps) (simp add: is_digit_def)
  next
    case False
    then have "list_all is_digit (digits (n div 10))" using 1 by simp
    moreover have "is_digit (48 + n mod 10)" by (simp add: is_digit_def) 
    ultimately show ?thesis using False by (subst digits.simps) simp
  qed
qed

lemma nat_of_digits_snoc: "nat_of_digits (ds @ [c]) = 10 * nat_of_digits ds + (c - 48)"
  by (simp add: nat_of_digits_def)

lemma nat_of_digits_digits: "nat_of_digits (digits n) = n"
proof (induction n rule: digits.induct)
  case (1 n)
  show ?case
  proof (cases "n < 10")
    case True
    then show ?thesis by (subst digits.simps) (simp add: nat_of_digits_def)
  next
    case False
    then have "nat_of_digits (digits (n div 10)) = n div 10" using 1 by simp
    then show ?thesis using False
      by (subst digits.simps) (simp add: nat_of_digits_snoc)
  qed
qed

lemma hd_digits: "0 < n \<Longrightarrow> hd (digits n) \<noteq> 48"
proof (induction n rule: digits.induct)
  case (1 n)
  show ?case
  proof (cases "n < 10")
    case True
    then show ?thesis using 1(2) by (subst digits.simps) simp
  next
    case False
    then have "hd (digits (n div 10)) \<noteq> 48" using 1 by simp
    then show ?thesis using False digits_not_Nil[of "n div 10"]
      by (subst digits.simps) simp
  qed
qed

lemma digits_zero_iff: "digits n = [48] \<longleftrightarrow> n = 0"
proof
  assume "digits n = [48]"
  then have "nat_of_digits (digits n) = nat_of_digits [48]" by simp
  then have "n = nat_of_digits [48]" by (simp only: nat_of_digits_digits)
  then show "n = 0" by (simp add: nat_of_digits_def)
next
  assume "n = 0" then show "digits n = [48]" by (simp add: digits.simps)
qed


subsection \<open>Strings\<close>

lemma hex_value_hex_digit: "d < 16 \<Longrightarrow> hex_value (hex_digit d) = Some d"
  by (auto simp: hex_value_def hex_digit_def)

lemma hex4_split:
  "c < 65536 \<Longrightarrow>
   4096 * (c div 4096 mod 16) + 256 * (c div 256 mod 16) + 16 * (c div 16 mod 16) + c mod 16
     = (c::nat)"
proof -
  assume c: "c < 65536"
  have a: "c mod 256 = 16 * (c div 16 mod 16) + c mod 16"
    using mod_mult2_eq[of c 16 16] by simp
  have b: "c mod 4096 = 256 * (c div 256 mod 16) + c mod 256"
    using mod_mult2_eq[of c 256 16] by simp
  have d: "c div 4096 mod 16 = c div 4096"
    using c by (intro mod_less) (simp add: div_less_iff_less_mult)
  have "c = 4096 * (c div 4096) + c mod 4096" by simp
  with a b d show ?thesis by simp
qed

lemma hex4_escape:
  assumes "c < 65536"
  shows "hex4 (hex_digit (c div 4096 mod 16)) (hex_digit (c div 256 mod 16))
           (hex_digit (c div 16 mod 16)) (hex_digit (c mod 16)) = Some c"
proof -
  have h: "\<And>d. hex_value (hex_digit (d mod 16)) = Some (d mod 16)"
    by (rule hex_value_hex_digit) simp
  show ?thesis
    unfolding hex4_def h by (simp only: prod.case option.case hex4_split[OF assms])
qed

declare parse_chars.simps(2) [simp del]

lemma parse_chars_quote: "parse_chars (34 # cs) = Some ([], cs)"
  by (simp add: parse_chars.simps)

lemma parse_chars_plain:
  "c \<noteq> 34 \<Longrightarrow> c \<noteq> 92 \<Longrightarrow> \<not> c < 32 \<Longrightarrow> parse_chars (c # cs) = cons_unit c (parse_chars cs)"
  by (simp add: parse_chars.simps)

lemma parse_chars_short:
  "e \<noteq> 117 \<Longrightarrow> unescape e = Some u \<Longrightarrow> parse_chars (92 # e # cs) = cons_unit u (parse_chars cs)"
  by (simp add: parse_chars.simps)

lemma parse_chars_hex:
  "hex4 h1 h2 h3 h4 = Some u \<Longrightarrow>
   parse_chars (92 # 117 # h1 # h2 # h3 # h4 # cs) = cons_unit u (parse_chars cs)"
  by (simp add: parse_chars.simps)

lemma parse_chars_unit:
  "parse_chars t = Some (s', r) \<Longrightarrow> parse_chars (quote_unit c @ t) = Some (c # s', r)"
proof -
  assume t: "parse_chars t = Some (s', r)"
  consider (short) "c \<in> {8, 9, 10, 12, 13, 34, 92}"
    | (esc) "c \<notin> {8, 9, 10, 12, 13, 34, 92}" "c < 32 \<or> is_lead c \<or> is_trail c"
    | (raw) "c \<notin> {8, 9, 10, 12, 13, 34, 92}" "\<not> (c < 32 \<or> is_lead c \<or> is_trail c)"
    by blast
  then show ?thesis
  proof cases
    case short
    then show ?thesis using t
      by (auto simp: quote_unit_def unescape_def cons_unit_def parse_chars_short)
  next
    case esc
    then have "c < 65536" by (auto simp: is_lead_def is_trail_def)
    from parse_chars_hex[OF hex4_escape[OF this], of t] esc t show ?thesis
      by (simp add: quote_unit_def UnicodeEscape_def cons_unit_def)
  next
    case raw
    then show ?thesis using t
      by (simp add: quote_unit_def cons_unit_def parse_chars_plain)
  qed
qed

lemma parse_chars_raw:
  "parse_chars t = Some (s', r) \<Longrightarrow> is_lead c \<or> is_trail c \<Longrightarrow>
   parse_chars (c # t) = Some (c # s', r)"
  by (auto simp: is_lead_def is_trail_def cons_unit_def parse_chars_plain)

lemma parse_chars_quote_units:
  "parse_chars (quote_units s @ 34 # rest) = Some (s, rest)"
proof (induction s rule: quote_units.induct)
  case 1
  show ?case by (simp add: parse_chars_quote)
next
  case (2 c)
  have "parse_chars (34 # rest) = Some ([], rest)" by (rule parse_chars_quote)
  from parse_chars_unit[OF this, of c] show ?case by simp
next
  case (3 c d r)
  show ?case
  proof (cases "is_lead c \<and> is_trail d")
    case True
    with 3 have "parse_chars (quote_units r @ 34 # rest) = Some (r, rest)" by simp
    from parse_chars_raw[OF this, of d] True
    have "parse_chars (d # quote_units r @ 34 # rest) = Some (d # r, rest)" by simp
    from parse_chars_raw[OF this, of c] True
    show ?thesis by simp
  next
    case False
    with 3 have "parse_chars (quote_units (d # r) @ 34 # rest) = Some (d # r, rest)" by simp
    from parse_chars_unit[OF this, of c]
    have "parse_chars (quote_unit c @ quote_units (d # r) @ 34 # rest) = Some (c # d # r, rest)" .
    moreover from False have "quote_units (c # d # r) = quote_unit c @ quote_units (d # r)"
      by (simp only: quote_units.simps if_False)
    ultimately show ?thesis by (simp only: append_assoc)
  qed
qed

lemma parse_chars_QuoteJSONString:
  "QuoteJSONString s @ rest = 34 # t \<Longrightarrow> parse_chars t = Some (s, rest)"
  using parse_chars_quote_units[of s rest] by (simp add: QuoteJSONString_def)

subsection \<open>Numbers\<close>

lemma takeWhile_digits:
  "list_all is_digit ds \<Longrightarrow> t = [] \<or> \<not> is_digit (hd t) \<Longrightarrow>
   takeWhile is_digit (ds @ t) = ds \<and> dropWhile is_digit (ds @ t) = t"
  by (induction ds) (cases t; auto)+

lemma nat_of_digits_append:
  "nat_of_digits (xs @ ys) = nat_of_digits xs * 10 ^ length ys + nat_of_digits ys"
proof (induction ys rule: rev_induct)
  case Nil
  show ?case by (simp add: nat_of_digits_def)
next
  case (snoc y ys)
  have "nat_of_digits (xs @ ys @ [y]) = 10 * nat_of_digits (xs @ ys) + (y - 48)"
    using nat_of_digits_snoc[of "xs @ ys" y] by simp
  then show ?case by (simp add: snoc nat_of_digits_snoc algebra_simps)
qed

lemma nat_of_digits_zeros: "nat_of_digits (replicate j 48 @ ds) = nat_of_digits ds"
  by (induction j) (simp_all add: nat_of_digits_def)

lemma strip_zeros_canon: "m mod 10 \<noteq> 0 \<Longrightarrow> strip_zeros m e = (m, e)"
  by (subst strip_zeros.simps) simp

lemma strip_zeros_pow:
  "m mod 10 \<noteq> 0 \<Longrightarrow> strip_zeros (m * 10 ^ j) e = (m, e + int j)"
proof (induction j arbitrary: e)
  case 0
  then show ?case by (simp add: strip_zeros_canon)
next
  case (Suc j)
  from Suc.prems have "m \<noteq> 0" by auto
  then have "strip_zeros (m * 10 ^ Suc j) e = strip_zeros (m * 10 ^ j) (e + 1)"
    by (subst strip_zeros.simps) simp
  with Suc show ?case by simp
qed

lemma strip_zeros_result:
  "m \<noteq> 0 \<Longrightarrow> strip_zeros m e = (m', e') \<Longrightarrow> m' mod 10 \<noteq> 0"
proof (induction m e rule: strip_zeros.induct)
  case (1 m e)
  show ?case
  proof (cases "m mod 10 = 0")
    case True
    with 1(2) have nz: "m div 10 \<noteq> 0" by auto
    from True 1(2,3) have "strip_zeros (m div 10) (e + 1) = (m', e')"
      by (subst (asm) strip_zeros.simps) simp
    with 1(1) True 1(2) nz show ?thesis by simp
  next
    case False
    with 1(3) show ?thesis by (simp add: strip_zeros_canon)
  qed
qed

lemma canonical_normalise: "canonical (normalise x)"
proof (cases x)
  case (Dec m e)
  show ?thesis
  proof (cases "m = 0")
    case True
    with Dec show ?thesis by (simp add: normalise_def canonical_def)
  next
    case False
    obtain m' e' where s: "strip_zeros (nat \<bar>m\<bar>) e = (m', e')" by force
    from False have "nat \<bar>m\<bar> \<noteq> 0" by simp
    from strip_zeros_result[OF this s] have "m' mod 10 \<noteq> 0" .
    with Dec False s show ?thesis
      by (auto simp: normalise_def canonical_def)
  qed
qed

lemma normalise_canonical: "canonical x \<Longrightarrow> normalise x = x"
  by (cases x) (auto simp: canonical_def normalise_def strip_zeros_canon split: if_splits)

lemma normalise_idem: "normalise (normalise x) = normalise x"
  by (simp add: normalise_canonical canonical_normalise)

lemma normalise_nat:
  assumes "n \<noteq> 0" "strip_zeros n e = (a, e')"
  shows "normalise (Dec (if neg then - int n else int n) e)
       = Dec (if neg then - int a else int a) e'"
proof (cases neg)
  case True
  have "- int n < 0" "- int n \<noteq> 0" "nat \<bar>- int n\<bar> = n" using assms(1) by simp_all
  with True assms(2) show ?thesis
    unfolding normalise_def by (simp only: number.case if_True if_False prod.case)
next
  case False
  have "\<not> int n < 0" "int n \<noteq> 0" "nat \<bar>int n\<bar> = n" using assms(1) by simp_all
  with False assms(2) show ?thesis
    unfolding normalise_def by (simp only: number.case if_True if_False prod.case)
qed

lemma normalise_pow:
  assumes "a mod 10 \<noteq> 0"
  shows "normalise (Dec (if neg then - int (a * 10 ^ j) else int (a * 10 ^ j)) e)
       = Dec (if neg then - int a else int a) (e + int j)"
proof -
  from assms have "a * 10 ^ j \<noteq> 0" by auto
  from normalise_nat[OF this strip_zeros_pow[OF assms, of j e]] show ?thesis .
qed

lemma parse_fraction_none: "t = [] \<or> hd t \<noteq> 46 \<Longrightarrow> parse_fraction t = Some ([], t)"
  by (cases t) (auto simp: parse_fraction_def)

lemma parse_fraction_some:
  "list_all is_digit fp \<Longrightarrow> fp \<noteq> [] \<Longrightarrow> u = [] \<or> \<not> is_digit (hd u) \<Longrightarrow>
   parse_fraction (46 # fp @ u) = Some (fp, u)"
  using takeWhile_digits[of fp u] by (simp add: parse_fraction_def)

lemma parse_exponent_none:
  "t = [] \<or> (hd t \<noteq> 101 \<and> hd t \<noteq> 69) \<Longrightarrow> parse_exponent t = Some (0, t)"
  by (cases t) (auto simp: parse_exponent_def)

lemma parse_exponent_some:
  assumes "list_all is_digit ds" "ds \<noteq> []" "u = [] \<or> \<not> is_digit (hd u)"
  shows "parse_exponent (101 # (if ex < 0 then [45] else [43]) @ ds @ u)
       = Some (if ex < 0 then - int (nat_of_digits ds) else int (nat_of_digits ds), u)"
  using takeWhile_digits[OF assms(1,3)] assms(2)
  by (simp add: parse_exponent_def)

lemma parse_number_parts:
  assumes ip: "list_all is_digit ip" "ip \<noteq> []" "hd ip \<noteq> 48 \<or> length ip = 1"
    and t: "t = [] \<or> \<not> is_digit (hd t)"
    and fr: "parse_fraction t = Some (fp, t')"
    and ex: "parse_exponent t' = Some (ex, rest)"
  shows "parse_number ((if neg then [45] else []) @ ip @ t)
       = Some (normalise (Dec (if neg then - int (nat_of_digits (ip @ fp))
                               else int (nat_of_digits (ip @ fp))) (ex - int (length fp))), rest)"
proof -
  from ip obtain d ds where ipc: "ip = d # ds" and d: "is_digit d"
    by (cases ip) auto
  then have d45: "d \<noteq> 45" by (auto simp: is_digit_def)
  have sgn: "(case (if neg then [45] else []) @ ip @ t of
        [] \<Rightarrow> (False, (if neg then [45] else []) @ ip @ t)
      | c # r \<Rightarrow> if c = 45 then (True, r) else (False, (if neg then [45] else []) @ ip @ t))
      = (neg, ip @ t)"
    using ipc d45 by simp
  have hd: "\<not> (hd ip = 48 \<and> length ip \<noteq> 1)" using ip(3) by auto
  show ?thesis
    unfolding parse_number_def sgn
    using takeWhile_digits[OF ip(1) t] ip(2) hd fr ex
    by (simp add: Let_def)
qed

lemma list_all_take_drop:
  "list_all P xs \<Longrightarrow> list_all P (take n xs) \<and> list_all P (drop n xs)"
  by (metis append_take_drop_id list_all_append)

lemma parse_number_to_string:
  assumes rest: "nstop rest"
  shows "parse_number (number_to_string x @ rest) = Some (normalise x, rest)"
proof -
  obtain m e where N: "normalise x = Dec m e" by (cases "normalise x") auto
  have canon: "canonical (Dec m e)" using canonical_normalise[of x] N by simp
  have rd: "rest = [] \<or> \<not> is_digit (hd rest)" using rest by (auto simp: nstop_def)
  have r46: "rest = [] \<or> hd rest \<noteq> 46" using rest by (auto simp: nstop_def)
  have rex: "rest = [] \<or> (hd rest \<noteq> 101 \<and> hd rest \<noteq> 69)" using rest by (auto simp: nstop_def)
  let ?G = "parse_number (number_to_string x @ rest) = Some (normalise x, rest)"
  show ?thesis
  proof (cases "m = 0")
    case True
    with canon have e: "e = 0" by (simp add: canonical_def)
    have str: "number_to_string x = [48]"
      using N True by (simp add: number_to_string_def str_def)
    have "parse_number ((if False then [45] else []) @ [48] @ rest)
       = Some (normalise (Dec (if False then - int (nat_of_digits ([48] @ []))
                               else int (nat_of_digits ([48] @ []))) (0 - int (length ([]::ustring)))), rest)"
      by (rule parse_number_parts[OF _ _ _ rd parse_fraction_none[OF r46] parse_exponent_none[OF rex]])
         (simp_all add: is_digit_def)
    then show ?thesis using True e N
      by (simp add: str nat_of_digits_def normalise_def)
  next
    case False
    define a where "a = nat \<bar>m\<bar>"
    define neg where "neg = (m < 0)"
    define s where "s = digits a"
    define k where "k = int (length s)"
    define n where "n = k + e"
    define sign where "sign = (if neg then [45] else ([]::ustring))"
    have a0: "0 < a" using False by (simp add: a_def)
    have a10: "a mod 10 \<noteq> 0" using canon False by (simp add: canonical_def a_def)
    have m: "m = (if neg then - int a else int a)" by (simp add: a_def neg_def)
    have sd: "list_all is_digit s" by (simp add: s_def digits_all)
    have sn: "s \<noteq> []" by (simp add: s_def digits_not_Nil)
    have sh: "hd s \<noteq> 48" using hd_digits[OF a0] by (simp add: s_def)
    have sv: "nat_of_digits s = a" by (simp add: s_def nat_of_digits_digits)
    have k1: "1 \<le> k" using sn by (cases s) (simp_all add: k_def)
    have goal: "\<And>body mant ex. number_to_string x = sign @ body \<Longrightarrow>
        parse_number (sign @ body @ rest)
          = Some (normalise (Dec (if neg then - int (a * 10 ^ mant) else int (a * 10 ^ mant)) ex), rest) \<Longrightarrow>
        ex + int mant = e \<Longrightarrow> ?G"
    proof -
      fix body mant ex
      assume b: "number_to_string x = sign @ body"
        and p: "parse_number (sign @ body @ rest)
          = Some (normalise (Dec (if neg then - int (a * 10 ^ mant) else int (a * 10 ^ mant)) ex), rest)"
        and e: "ex + int mant = e"
      from normalise_pow[OF a10, of neg mant ex] e m N
      have "normalise (Dec (if neg then - int (a * 10 ^ mant) else int (a * 10 ^ mant)) ex)
          = normalise x" by simp
      with b p show ?G by simp
    qed
    have unfold: "number_to_string x = sign @
         (if k \<le> n \<and> n \<le> 21 then s @ replicate (nat (n - k)) 48
          else if 0 < n \<and> n \<le> 21 then take (nat n) s @ [46] @ drop (nat n) s
          else if - 6 < n \<and> n \<le> 0 then [48, 46] @ replicate (nat (- n)) 48 @ s
          else if k = 1 then s @ [101] @ (if n - 1 < 0 then [45] else [43]) @ digits (nat \<bar>n - 1\<bar>)
               else take 1 s @ [46] @ drop 1 s @ [101] @ (if n - 1 < 0 then [45] else [43])
                    @ digits (nat \<bar>n - 1\<bar>))"
      unfolding number_to_string_def N
      using False
      by (simp add: Let_def str_def sign_def neg_def s_def a_def k_def n_def)
    consider (int) "k \<le> n" "n \<le> 21"
      | (frac) "n < k" "0 < n" "n \<le> 21"
      | (small) "- 6 < n" "n \<le> 0"
      | (exp1) "n \<le> - 6 \<or> 21 < n" "k = 1"
      | (expk) "n \<le> - 6 \<or> 21 < n" "k \<noteq> 1"
      by linarith
    then show ?thesis
    proof cases
      case int
      define j where "j = nat (n - k)"
      have body: "number_to_string x = sign @ (s @ replicate j 48)"
        using unfold int by (simp add: j_def)
      have ipd: "list_all is_digit (s @ replicate j 48)"
        using sd by (auto simp: list_all_iff is_digit_def)
      have iph: "hd (s @ replicate j 48) \<noteq> 48 \<or> length (s @ replicate j 48) = 1"
        using sn sh by simp
      have val: "nat_of_digits ((s @ replicate j 48) @ []) = a * 10 ^ j"
        using nat_of_digits_append[of s "replicate j 48"] nat_of_digits_zeros[of j "[]"] sv
        by (simp add: nat_of_digits_def)
      have "parse_number (sign @ (s @ replicate j 48) @ rest)
         = Some (normalise (Dec (if neg then - int (nat_of_digits ((s @ replicate j 48) @ []))
               else int (nat_of_digits ((s @ replicate j 48) @ []))) (0 - int (length ([]::ustring)))), rest)"
        unfolding sign_def
        by (rule parse_number_parts[OF ipd _ iph rd parse_fraction_none[OF r46] parse_exponent_none[OF rex]])
           (simp add: sn)
      then have "parse_number (sign @ (s @ replicate j 48) @ rest)
         = Some (normalise (Dec (if neg then - int (a * 10 ^ j) else int (a * 10 ^ j)) 0), rest)"
        by (simp only: val) simp
      from goal[OF body this] int show ?thesis by (simp add: j_def n_def)
    next
      case frac
      define i where "i = nat n"
      have i: "0 < i" "i < length s" using frac by (simp_all add: i_def k_def)
      have body: "number_to_string x = sign @ (take i s @ 46 # drop i s)"
        using unfold frac by (simp add: i_def)
      have ipd: "list_all is_digit (take i s)" and fpd: "list_all is_digit (drop i s)"
        using list_all_take_drop[OF sd, of i] by simp_all
      have ipn: "take i s \<noteq> []" using i sn by simp
      have iph: "hd (take i s) \<noteq> 48 \<or> length (take i s) = 1" using i sh by simp
      have fpn: "drop i s \<noteq> []" using i by simp
      have t: "46 # drop i s @ rest = [] \<or> \<not> is_digit (hd (46 # drop i s @ rest))"
        by (simp add: is_digit_def)
      have "parse_number (sign @ take i s @ (46 # drop i s @ rest))
         = Some (normalise (Dec (if neg then - int (nat_of_digits (take i s @ drop i s))
               else int (nat_of_digits (take i s @ drop i s))) (0 - int (length (drop i s)))), rest)"
        unfolding sign_def
        by (rule parse_number_parts[OF ipd ipn iph t parse_fraction_some[OF fpd fpn rd]
              parse_exponent_none[OF rex]])
      then have "parse_number (sign @ (take i s @ 46 # drop i s) @ rest)
         = Some (normalise (Dec (if neg then - int (a * 10 ^ 0) else int (a * 10 ^ 0))
              (- int (length s - i))), rest)"
        using sv by simp
      from goal[OF body this] frac i show ?thesis by (simp add: i_def n_def k_def)
    next
      case small
      define z where "z = nat (- n)"
      have body: "number_to_string x = sign @ ([48] @ 46 # replicate z 48 @ s)"
        using unfold small k1 by (simp add: z_def)
      have fpd: "list_all is_digit (replicate z 48 @ s)"
        using sd by (auto simp: list_all_iff is_digit_def)
      have fpn: "replicate z 48 @ s \<noteq> []" using sn by simp
      have t: "46 # (replicate z 48 @ s) @ rest = [] \<or> \<not> is_digit (hd (46 # (replicate z 48 @ s) @ rest))"
        by (simp add: is_digit_def)
      have val: "nat_of_digits ([48] @ replicate z 48 @ s) = a"
        using nat_of_digits_zeros[of "Suc z" s] sv by simp
      have "parse_number (sign @ [48] @ (46 # (replicate z 48 @ s) @ rest))
         = Some (normalise (Dec (if neg then - int (nat_of_digits ([48] @ replicate z 48 @ s))
               else int (nat_of_digits ([48] @ replicate z 48 @ s)))
                 (0 - int (length (replicate z 48 @ s)))), rest)"
        unfolding sign_def
        by (rule parse_number_parts[OF _ _ _ t parse_fraction_some[OF fpd fpn rd]
              parse_exponent_none[OF rex]]) (simp_all add: is_digit_def)
      then have "parse_number (sign @ ([48] @ 46 # replicate z 48 @ s) @ rest)
         = Some (normalise (Dec (if neg then - int (a * 10 ^ 0) else int (a * 10 ^ 0))
              (- int (z + length s))), rest)"
        by (simp only: val) simp
      from goal[OF body this] small show ?thesis by (simp add: z_def n_def k_def)
    next
      case exp1
      define ds where "ds = digits (nat \<bar>n - 1\<bar>)"
      define sg where "sg = (if n - 1 < 0 then [45] else [43::nat])"
      have body: "number_to_string x = sign @ (s @ 101 # sg @ ds)"
        using unfold exp1 k1 by (auto simp: ds_def sg_def)
      have dsd: "list_all is_digit ds" and dsn: "ds \<noteq> []"
        by (simp_all add: ds_def digits_all digits_not_Nil)
      have dsv: "int (nat_of_digits ds) = \<bar>n - 1\<bar>" by (simp add: ds_def nat_of_digits_digits)
      have iph: "hd s \<noteq> 48 \<or> length s = 1" using sh by simp
      have t: "101 # sg @ ds @ rest = [] \<or> \<not> is_digit (hd (101 # sg @ ds @ rest))"
        by (simp add: is_digit_def)
      have t46: "101 # sg @ ds @ rest = [] \<or> hd (101 # sg @ ds @ rest) \<noteq> 46" by simp
      have "parse_number (sign @ s @ (101 # sg @ ds @ rest))
         = Some (normalise (Dec (if neg then - int (nat_of_digits (s @ []))
               else int (nat_of_digits (s @ [])))
                 ((if n - 1 < 0 then - int (nat_of_digits ds) else int (nat_of_digits ds))
                    - int (length ([]::ustring)))), rest)"
        unfolding sign_def sg_def
        by (rule parse_number_parts[OF sd sn iph t[unfolded sg_def]
              parse_fraction_none[OF t46[unfolded sg_def]] parse_exponent_some[OF dsd dsn rd]])
      then have "parse_number (sign @ (s @ 101 # sg @ ds) @ rest)
         = Some (normalise (Dec (if neg then - int (a * 10 ^ 0) else int (a * 10 ^ 0)) (n - 1)), rest)"
        using sv dsv by (simp split: if_splits)
      from goal[OF body this] exp1 show ?thesis by (simp add: n_def)
    next
      case expk
      define ds where "ds = digits (nat \<bar>n - 1\<bar>)"
      define sg where "sg = (if n - 1 < 0 then [45] else [43::nat])"
      have len: "2 \<le> length s" using k1 expk by (simp add: k_def)
      have body: "number_to_string x = sign @ (take 1 s @ 46 # drop 1 s @ 101 # sg @ ds)"
        using unfold expk k1 by (auto simp: ds_def sg_def)
      have dsd: "list_all is_digit ds" and dsn: "ds \<noteq> []"
        by (simp_all add: ds_def digits_all digits_not_Nil)
      have dsv: "int (nat_of_digits ds) = \<bar>n - 1\<bar>" by (simp add: ds_def nat_of_digits_digits)
      have ipd: "list_all is_digit (take 1 s)" and fpd: "list_all is_digit (drop 1 s)"
        using list_all_take_drop[OF sd, of 1] by simp_all
      have ipn: "take 1 s \<noteq> []" using sn by simp
      have iph: "hd (take 1 s) \<noteq> 48 \<or> length (take 1 s) = 1" using sn by (cases s) simp_all
      have fpn: "drop 1 s \<noteq> []" using len by simp
      have t: "46 # drop 1 s @ (101 # sg @ ds @ rest) = []
          \<or> \<not> is_digit (hd (46 # drop 1 s @ (101 # sg @ ds @ rest)))"
        by (simp add: is_digit_def)
      have u: "101 # sg @ ds @ rest = [] \<or> \<not> is_digit (hd (101 # sg @ ds @ rest))"
        by (simp add: is_digit_def)
      have "parse_number (sign @ take 1 s @ (46 # drop 1 s @ (101 # sg @ ds @ rest)))
         = Some (normalise (Dec (if neg then - int (nat_of_digits (take 1 s @ drop 1 s))
               else int (nat_of_digits (take 1 s @ drop 1 s)))
                 ((if n - 1 < 0 then - int (nat_of_digits ds) else int (nat_of_digits ds))
                    - int (length (drop 1 s)))), rest)"
        unfolding sign_def sg_def
        by (rule parse_number_parts[OF ipd ipn iph t[unfolded sg_def]
              parse_fraction_some[OF fpd fpn u[unfolded sg_def]] parse_exponent_some[OF dsd dsn rd]])
      then have "parse_number (sign @ (take 1 s @ 46 # drop 1 s @ 101 # sg @ ds) @ rest)
         = Some (normalise (Dec (if neg then - int (a * 10 ^ 0) else int (a * 10 ^ 0))
              (n - 1 - int (length s - 1))), rest)"
        using sv dsv by (simp split: if_splits)
      from goal[OF body this] len show ?thesis by (simp add: n_def k_def)
    qed
  qed
qed

subsection \<open>Values\<close>

lemma skip_ws_ws: "list_all is_ws w \<Longrightarrow> skip_ws (w @ t) = skip_ws t"
  by (induction w) (simp_all add: skip_ws_def)

lemma skip_ws_stay: "\<not> is_ws c \<Longrightarrow> skip_ws (c # t) = c # t"
  by (simp add: skip_ws_def)

lemma parse_value_ws: "list_all is_ws w \<Longrightarrow> parse_value f (w @ t) = parse_value f t"
  by (cases f) (simp_all add: skip_ws_ws)

lemma parse_number_hd:
  "parse_number t = Some r \<Longrightarrow> \<exists>c cs. t = c # cs \<and> (c = 45 \<or> is_digit c)"
proof (cases t)
  case Nil
  assume "parse_number t = Some r"
  with Nil show ?thesis by (simp add: parse_number_def)
next
  case (Cons c cs)
  assume p: "parse_number t = Some r"
  show ?thesis
  proof (cases "c = 45 \<or> is_digit c")
    case True
    with Cons show ?thesis by simp
  next
    case False
    with Cons p show ?thesis by (simp add: parse_number_def)
  qed
qed

lemma number_to_string_hd:
  "\<exists>c cs. number_to_string x = c # cs \<and> (c = 45 \<or> is_digit c)"
proof -
  have "nstop []" by (simp add: nstop_def)
  from parse_number_to_string[OF this, of x] parse_number_hd[of "number_to_string x"]
  show ?thesis by simp
qed

lemma stop_nstop: "stop rest \<Longrightarrow> nstop rest"
  by (cases rest) (auto simp: stop_def nstop_def is_digit_def)

lemma parse_value_null: "parse_value (Suc f) (str ''null'' @ rest) = Got JNull rest"
  by (simp add: str_def skip_ws_def is_ws_def expect_def)

lemma parse_value_true: "parse_value (Suc f) (str ''true'' @ rest) = Got (JBool True) rest"
  by (simp add: str_def skip_ws_def is_ws_def expect_def)

lemma parse_value_false: "parse_value (Suc f) (str ''false'' @ rest) = Got (JBool False) rest"
  by (simp add: str_def skip_ws_def is_ws_def expect_def)

lemma parse_value_string:
  "parse_value (Suc f) (QuoteJSONString s @ rest) = Got (JStr s) rest"
  using parse_chars_quote_units[of s rest]
  by (simp add: QuoteJSONString_def skip_ws_def is_ws_def)

lemma parse_value_number:
  assumes "stop rest"
  shows "parse_value (Suc f) (number_to_string n @ rest) = Got (JNum (normalise n)) rest"
proof -
  obtain c cs where c: "number_to_string n = c # cs" "c = 45 \<or> is_digit c"
    using number_to_string_hd[of n] by blast
  from parse_number_to_string[OF stop_nstop[OF assms], of n] c(1)
  have p: "parse_number (c # cs @ rest) = Some (normalise n, rest)" by simp
  from c(2) have "\<not> is_ws c" "c \<noteq> 123" "c \<noteq> 91" "c \<noteq> 34" "c \<noteq> 116" "c \<noteq> 102" "c \<noteq> 110"
    by (auto simp: is_ws_def is_digit_def)
  with p show ?thesis by (simp add: c(1) skip_ws_def)
qed

lemma serialize_opens:
  "SerializeJSONProperty ind v = Some s \<Longrightarrow> \<exists>c cs. s = c # cs \<and> opens c"
proof (cases v)
  case (JNum n)
  assume "SerializeJSONProperty ind v = Some s"
  with JNum have s: "s = number_to_string n" by simp
  obtain c cs where "number_to_string n = c # cs" "c = 45 \<or> is_digit c"
    using number_to_string_hd[of n] by blast
  with s show ?thesis by (auto simp: opens_def is_ws_def is_digit_def)
qed (auto simp: opens_def is_ws_def str_def QuoteJSONString_def Let_def split: if_splits)

lemma join_Cons: "join sep (x # xs) = (if xs = [] then x else x @ sep @ join sep xs)"
  by (cases xs) simp_all

lemma parse_value_array_empty: "parse_value (Suc f) (str ''[]'' @ rest) = Got (JArr []) rest"
  by (simp add: str_def skip_ws_def is_ws_def)

lemma parse_value_object_empty: "parse_value (Suc f) (str ''{}'' @ rest) = Got (JObj []) rest"
  by (simp add: str_def skip_ws_def is_ws_def)

lemma parse_value_array:
  assumes "list_all is_ws w" "opens c"
  shows "parse_value (Suc f) (91 # w @ c # t) = parse_elements f (w @ c # t) []"
proof -
  have "skip_ws (w @ c # t) = c # t"
    using assms by (simp add: skip_ws_ws skip_ws_stay opens_def)
  moreover have "skip_ws (91 # w @ c # t) = 91 # w @ c # t"
    by (simp add: skip_ws_def is_ws_def)
  ultimately show ?thesis using assms(2) by (simp add: opens_def)
qed

lemma parse_value_object:
  assumes "list_all is_ws w" "opens c"
  shows "parse_value (Suc f) (123 # w @ c # t) = parse_members f (w @ c # t) []"
proof -
  have "skip_ws (w @ c # t) = c # t"
    using assms by (simp add: skip_ws_ws skip_ws_stay opens_def)
  moreover have "skip_ws (123 # w @ c # t) = 123 # w @ c # t"
    by (simp add: skip_ws_def is_ws_def)
  ultimately show ?thesis using assms(2) by (simp add: opens_def)
qed

lemma parse_elements_more:
  "parse_value f s = Got v (44 # t) \<Longrightarrow>
   parse_elements (Suc f) s acc = parse_elements f t (acc @ [v])"
  by (simp add: skip_ws_def is_ws_def)

lemma parse_elements_last:
  assumes "parse_value f s = Got v (w @ 93 # t)" "list_all is_ws w"
  shows "parse_elements (Suc f) s acc = Got (JArr (acc @ [v])) t"
proof -
  have "skip_ws (w @ 93 # t) = 93 # t"
    using assms(2) by (simp add: skip_ws_ws skip_ws_stay is_ws_def)
  with assms(1) show ?thesis by simp
qed

lemma parse_members_key:
  assumes "list_all is_ws w"
  shows "parse_members (Suc f) (w @ QuoteJSONString k @ 58 # u) acc =
     (case parse_value f u of
        NoFuel \<Rightarrow> NoFuel
      | Bad \<Rightarrow> Bad
      | Got v r'' \<Rightarrow>
          (case skip_ws r'' of
             [] \<Rightarrow> Bad
           | d # t \<Rightarrow>
               if d = 44 then parse_members f t (obj_set k v acc)
               else if d = 125 then Got (JObj (obj_set k v acc)) t
               else Bad))"
proof -
  have a: "skip_ws (w @ QuoteJSONString k @ 58 # u) = 34 # quote_units k @ 34 # 58 # u"
    using assms by (simp add: skip_ws_ws QuoteJSONString_def skip_ws_stay is_ws_def)
  have b: "parse_chars (quote_units k @ 34 # 58 # u) = Some (k, 58 # u)"
    by (rule parse_chars_quote_units)
  have c: "skip_ws (58 # u) = 58 # u" by (simp add: skip_ws_stay is_ws_def)
  show ?thesis
    by (simp only: parse_members.simps a b c list.case option.case prod.case) simp
qed

lemma parse_members_more:
  assumes "list_all is_ws w" "parse_value f u = Got v (44 # t)"
  shows "parse_members (Suc f) (w @ QuoteJSONString k @ 58 # u) acc
       = parse_members f t (obj_set k v acc)"
  unfolding parse_members_key[OF assms(1)] assms(2)
  by (simp add: skip_ws_stay is_ws_def)

lemma parse_members_last:
  assumes "list_all is_ws w" "parse_value f u = Got v (w' @ 125 # t)" "list_all is_ws w'"
  shows "parse_members (Suc f) (w @ QuoteJSONString k @ 58 # u) acc
       = Got (JObj (obj_set k v acc)) t"
proof -
  have "skip_ws (w' @ 125 # t) = 125 # t"
    using assms(3) by (simp add: skip_ws_ws skip_ws_stay is_ws_def)
  then show ?thesis
    unfolding parse_members_key[OF assms(1)] assms(2) by simp
qed

lemma serialize_None: "SerializeJSONProperty ind v = None \<longleftrightarrow> v = JUndefined"
  by (cases v) (simp_all add: Let_def)

lemma SerializeJSONArray_Nil: "SerializeJSONArray ind xs = [] \<longleftrightarrow> xs = []"
  by (cases xs) simp_all

lemma SerializeJSONObject_Nil: "SerializeJSONObject ind kvs = [] \<longleftrightarrow> norm_members kvs = []"
  by (induction kvs) (auto simp: serialize_None split: option.splits if_splits)

lemma element_opens:
  "\<exists>c cs. (case SerializeJSONProperty ind x of None \<Rightarrow> str ''null'' | Some s \<Rightarrow> s) = c # cs
      \<and> opens c"
proof (cases "SerializeJSONProperty ind x")
  case None
  then show ?thesis by (simp add: str_def opens_def is_ws_def)
next
  case (Some s)
  with serialize_opens[OF Some] show ?thesis by simp
qed

lemma elements_open:
  assumes "xs \<noteq> []"
  shows "\<exists>c cs. join sep (SerializeJSONArray ind xs) = c # cs \<and> opens c"
proof -
  from assms obtain x xs' where xs: "xs = x # xs'" by (cases xs) auto
  obtain c cs where "(case SerializeJSONProperty ind x of None \<Rightarrow> str ''null'' | Some s \<Rightarrow> s) = c # cs"
    "opens c" using element_opens[of ind x] by blast
  then show ?thesis unfolding xs by (simp add: join_Cons)
qed

lemma members_open:
  assumes "SerializeJSONObject ind kvs \<noteq> []"
  shows "\<exists>c cs. join sep (SerializeJSONObject ind kvs) = c # cs \<and> opens c"
  using assms
proof (induction kvs)
  case Nil
  then show ?case by simp
next
  case (Cons kv kvs)
  obtain k v where kv: "kv = (k, v)" by (cases kv)
  show ?case
  proof (cases "SerializeJSONProperty ind v")
    case None
    with Cons kv show ?thesis by simp
  next
    case (Some s)
    then show ?thesis unfolding kv
      by (simp add: join_Cons QuoteJSONString_def opens_def is_ws_def)
  qed
qed

subsection \<open>Objects in enumeration order\<close>

lemma js_ordered_append:
  "js_ordered (xs @ ys) \<longleftrightarrow>
     js_ordered xs \<and> js_ordered ys \<and> (\<forall>a\<in>set xs. \<forall>b\<in>set ys. a \<noteq> b \<and> goes_before a b)"
  by (induction xs) (auto simp: list_all_iff)

lemma obj_set_append:
  assumes "\<forall>a\<in>set (map fst acc). a \<noteq> k \<and> goes_before a k"
  shows "obj_set k v acc = acc @ [(k, v)]"
proof -
  have notin: "k \<notin> set (map fst acc)" using assms by auto
  have "\<forall>kv\<in>set acc. (\<lambda>(k', v'). goes_before k' k) kv" using assms by auto
  then have "takeWhile (\<lambda>(k', v'). goes_before k' k) acc = acc"
    and "dropWhile (\<lambda>(k', v'). goes_before k' k) acc = []"
    by (simp_all add: takeWhile_eq_all_conv)
  with notin show ?thesis by (simp add: obj_set_def)
qed

lemma foldl_obj_set_ordered:
  "js_ordered (map fst (acc @ ms)) \<Longrightarrow>
   foldl (\<lambda>a (k, v). obj_set k v a) acc ms = acc @ ms"
proof (induction ms arbitrary: acc)
  case Nil
  show ?case by simp
next
  case (Cons kv ms)
  obtain k v where kv: "kv = (k, v)" by (cases kv)
  from Cons.prems have "js_ordered (map fst acc @ k # map fst ms)" by (simp add: kv)
  then have "\<forall>a\<in>set (map fst acc). a \<noteq> k \<and> goes_before a k"
    by (simp only: js_ordered_append) simp
  then have step: "obj_set k v acc = acc @ [(k, v)]" by (rule obj_set_append)
  from Cons.prems have "js_ordered (map fst ((acc @ [(k, v)]) @ ms))" by (simp add: kv)
  from Cons.IH[OF this] step show ?case by (simp add: kv)
qed

lemma norm_members_key: "(k, v) \<in> set (norm_members kvs) \<Longrightarrow> k \<in> fst ` set kvs"
  by (induction kvs) (force split: if_splits)+

lemma norm_members_keys: "set (map fst (norm_members kvs)) \<subseteq> set (map fst kvs)"
  using norm_members_key by fastforce

lemma js_ordered_norm_members:
  "js_ordered (map fst kvs) \<Longrightarrow> js_ordered (map fst (norm_members kvs))"
proof (induction kvs)
  case Nil
  show ?case by simp
next
  case (Cons kv kvs)
  obtain k v where kv: "kv = (k, v)" by (cases kv)
  from Cons have IH: "js_ordered (map fst (norm_members kvs))" by simp
  from Cons.prems have "list_all (\<lambda>k'. k \<noteq> k' \<and> goes_before k k') (map fst kvs)"
    by (simp add: kv)
  with norm_members_keys[of kvs]
  have "list_all (\<lambda>k'. k \<noteq> k' \<and> goes_before k k') (map fst (norm_members kvs))"
    unfolding list_all_iff by blast
  with IH show ?case by (simp add: kv)
qed

lemma norm_object:
  "js_ordered (map fst kvs) \<Longrightarrow>
   foldl (\<lambda>a (k, v). obj_set k v a) [] (norm_members kvs) = norm_members kvs"
  using foldl_obj_set_ordered[of "[]" "norm_members kvs"] js_ordered_norm_members[of kvs]
  by simp

subsection \<open>The round trip\<close>

declare parse_value.simps(2) [simp del]
declare parse_elements.simps(2) [simp del]
declare parse_members.simps(2) [simp del]

lemma is_ws_10: "is_ws 10"
  by (simp add: is_ws_def)

lemma gap_ws: "list_all is_ws gap"
  by (simp add: gap_def str_def is_ws_def)

lemma stop_comma: "stop (44 # t)" and stop_newline: "stop (10 # t)"
  by (simp_all add: stop_def)

lemma element_roundtrip:
  assumes P: "\<And>s rest f. well_formed x \<Longrightarrow> SerializeJSONProperty ind x = Some s \<Longrightarrow>
        list_all is_ws ind \<Longrightarrow> stop rest \<Longrightarrow> 2 * length (s @ rest) < f \<Longrightarrow>
        parse_value f (s @ rest) = Got (norm x) rest"
    and wf: "well_formed x" and ind: "list_all is_ws ind" and rest: "stop rest"
    and fuel: "2 * length ((case SerializeJSONProperty ind x of None \<Rightarrow> str ''null'' | Some s \<Rightarrow> s) @ rest) < f"
  shows "parse_value f ((case SerializeJSONProperty ind x of None \<Rightarrow> str ''null'' | Some s \<Rightarrow> s) @ rest)
       = Got (if x = JUndefined then JNull else norm x) rest"
proof (cases "SerializeJSONProperty ind x")
  case None
  then have x: "x = JUndefined" by (simp add: serialize_None)
  from fuel obtain f' where "f = Suc f'" by (cases f) auto
  with None x show ?thesis by (simp add: parse_value_null)
next
  case (Some s)
  then have x: "x \<noteq> JUndefined" using serialize_None[of ind x] by auto
  from fuel Some have "2 * length (s @ rest) < f" by simp
  from P[OF wf Some ind rest this] Some x show ?thesis by simp
qed

lemma roundtrip_mutual:
  "well_formed v \<Longrightarrow> SerializeJSONProperty ind v = Some s \<Longrightarrow> list_all is_ws ind \<Longrightarrow>
     stop rest \<Longrightarrow> 2 * length (s @ rest) < f \<Longrightarrow>
     parse_value f (s @ rest) = Got (norm v) rest"
  and "well_formed_elems xs \<Longrightarrow> xs \<noteq> [] \<Longrightarrow> list_all is_ws ind \<Longrightarrow> list_all is_ws w \<Longrightarrow>
     list_all is_ws stepback \<Longrightarrow>
     2 * length (w @ join (44 # 10 # ind) (SerializeJSONArray ind xs) @ 10 # stepback @ 93 # rest) + 1 < f \<Longrightarrow>
     parse_elements f (w @ join (44 # 10 # ind) (SerializeJSONArray ind xs) @ 10 # stepback @ 93 # rest) acc
       = Got (JArr (acc @ norm_elems xs)) rest"
  and "well_formed_members kvs \<Longrightarrow> SerializeJSONObject ind kvs \<noteq> [] \<Longrightarrow> list_all is_ws ind \<Longrightarrow>
     list_all is_ws w \<Longrightarrow> list_all is_ws stepback \<Longrightarrow>
     2 * length (w @ join (44 # 10 # ind) (SerializeJSONObject ind kvs) @ 10 # stepback @ 125 # rest) + 1 < f \<Longrightarrow>
     parse_members f (w @ join (44 # 10 # ind) (SerializeJSONObject ind kvs) @ 10 # stepback @ 125 # rest) macc
       = Got (JObj (foldl (\<lambda>a (k, v). obj_set k v a) macc (norm_members kvs))) rest"
proof (induction ind v and ind xs and ind kvs
    arbitrary: s rest f and w stepback rest f acc and w stepback rest f macc
    rule: SerializeJSONProperty_SerializeJSONArray_SerializeJSONObject.induct)
  case (1 ind)
  then show ?case by simp
next
  case (2 ind)
  from 2(5) obtain f' where "f = Suc f'" by (cases f) auto
  with 2(2) show ?case by (auto simp: parse_value_null)
next
  case (3 ind b)
  from 3(5) obtain f' where "f = Suc f'" by (cases f) auto
  with 3(2) show ?case by (auto simp: parse_value_true parse_value_false)
next
  case (4 ind n)
  from 4(5) obtain f' where "f = Suc f'" by (cases f) auto
  with 4(2) parse_value_number[OF 4(4)] show ?case by auto
next
  case (5 ind str)
  from 5(5) obtain f' where "f = Suc f'" by (cases f) auto
  with 5(2) parse_value_string show ?case by auto
next
  case (6 stepback xs)
  from 6(6) obtain f' where f: "f = Suc f'" by (cases f) auto
  define ind where "ind = stepback @ gap"
  have indws: "list_all is_ws ind" using 6(4) gap_ws by (simp add: ind_def)
  show ?case
  proof (cases "xs = []")
    case True
    with 6(3) have "s = str ''[]''" by simp
    with True f show ?thesis by (simp add: parse_value_array_empty)
  next
    case False
    define body where "body = join (44 # 10 # ind) (SerializeJSONArray ind xs)"
    from False 6(3) have s: "s = 91 # (10 # ind) @ body @ 10 # stepback @ [93]"
      by (simp add: Let_def SerializeJSONArray_Nil str_def ind_def body_def)
    obtain c cs where c: "body = c # cs" "opens c"
      using elements_open[OF False, of "44 # 10 # ind" ind] by (auto simp: body_def)
    have w: "list_all is_ws (10 # ind)" using indws by (simp add: is_ws_10)
    have wf: "well_formed_elems xs" using 6(2) by simp
    have fuel: "2 * length ((10 # ind) @ body @ 10 # stepback @ 93 # rest) + 1 < f'"
      using 6(6) by (simp add: s f)
    have "parse_value f (s @ rest) = parse_elements f' ((10 # ind) @ c # (cs @ 10 # stepback @ 93 # rest)) []"
      unfolding f s c(1) using parse_value_array[OF w c(2), of f' "cs @ 10 # stepback @ 93 # rest"]
      by simp
    also have "\<dots> = parse_elements f' ((10 # ind) @ body @ 10 # stepback @ 93 # rest) []"
      by (simp add: c(1))
    also have "\<dots> = Got (JArr ([] @ norm_elems xs)) rest"
      unfolding body_def
      by (rule 6(1)[OF ind_def wf False indws w 6(4) fuel[unfolded body_def]])
    finally show ?thesis by simp
  qed
next
  case (7 stepback kvs)
  from 7(6) obtain f' where f: "f = Suc f'" by (cases f) auto
  define ind where "ind = stepback @ gap"
  have indws: "list_all is_ws ind" using 7(4) gap_ws by (simp add: ind_def)
  have ord: "js_ordered (map fst kvs)" and wf: "well_formed_members kvs" using 7(2) by simp_all
  show ?case
  proof (cases "SerializeJSONObject ind kvs = []")
    case True
    with 7(3) have "s = str ''{}''" by (simp add: Let_def ind_def)
    moreover from True have "norm_members kvs = []" by (simp add: SerializeJSONObject_Nil)
    ultimately show ?thesis using f by (simp add: parse_value_object_empty)
  next
    case False
    define body where "body = join (44 # 10 # ind) (SerializeJSONObject ind kvs)"
    from False 7(3) have s: "s = 123 # (10 # ind) @ body @ 10 # stepback @ [125]"
      by (simp add: Let_def str_def ind_def body_def)
    obtain c cs where c: "body = c # cs" "opens c"
      using members_open[OF False, of "44 # 10 # ind"] by (auto simp: body_def)
    have w: "list_all is_ws (10 # ind)" using indws by (simp add: is_ws_10)
    have fuel: "2 * length ((10 # ind) @ body @ 10 # stepback @ 125 # rest) + 1 < f'"
      using 7(6) by (simp add: s f)
    have "parse_value f (s @ rest) = parse_members f' ((10 # ind) @ c # (cs @ 10 # stepback @ 125 # rest)) []"
      unfolding f s c(1) using parse_value_object[OF w c(2), of f' "cs @ 10 # stepback @ 125 # rest"]
      by simp
    also have "\<dots> = parse_members f' ((10 # ind) @ body @ 10 # stepback @ 125 # rest) []"
      by (simp add: c(1))
    also have "\<dots> = Got (JObj (foldl (\<lambda>a (k, v). obj_set k v a) [] (norm_members kvs))) rest"
      unfolding body_def
      by (rule 7(1)[OF ind_def wf False indws w 7(4) fuel[unfolded body_def]])
    finally show ?thesis by (simp add: norm_object[OF ord])
  qed
next
  case (8 ind)
  then show ?case by simp
next
  case (9 ind x xs)
  from 9(8) obtain f' where f: "f = Suc f'" by (cases f) auto
  define e where "e = (case SerializeJSONProperty ind x of None \<Rightarrow> str ''null'' | Some s \<Rightarrow> s)"
  define ev where "ev = (if x = JUndefined then JNull else norm x)"
  have wfx: "well_formed x" and wfxs: "well_formed_elems xs" using 9(3) by simp_all
  have elem: "\<And>R. stop R \<Longrightarrow> 2 * length (e @ R) < f' \<Longrightarrow> parse_value f' (w @ e @ R) = Got ev R"
  proof -
    fix R assume R: "stop R" "2 * length (e @ R) < f'"
    have "parse_value f' (e @ R) = Got ev R"
      unfolding e_def ev_def
      by (rule element_roundtrip[OF 9(1) wfx 9(5) R(1) R(2)[unfolded e_def]])
    then show "parse_value f' (w @ e @ R) = Got ev R"
      by (simp add: parse_value_ws[OF 9(6)])
  qed
  show ?case
  proof (cases "xs = []")
    case True
    have "parse_value f' (w @ e @ 10 # stepback @ 93 # rest) = Got ev ((10 # stepback) @ 93 # rest)"
      using elem[of "10 # stepback @ 93 # rest"] 9(8) True
      by (simp add: stop_newline f e_def)
    from parse_elements_last[OF this, of acc] 9(7) True show ?thesis
      by (simp add: f e_def ev_def is_ws_10)
  next
    case False
    define R where "R = (10 # ind) @ join (44 # 10 # ind) (SerializeJSONArray ind xs) @ 10 # stepback @ 93 # rest"
    have whole: "w @ join (44 # 10 # ind) (SerializeJSONArray ind (x # xs)) @ 10 # stepback @ 93 # rest
        = w @ e @ 44 # R"
      using False by (simp add: join_Cons SerializeJSONArray_Nil e_def R_def)
    have fuel: "2 * length (w @ e @ 44 # R) + 1 < Suc f'" using 9(8) by (simp only: whole f)
    then have "parse_value f' (w @ e @ 44 # R) = Got ev (44 # R)"
      using elem[of "44 # R"] by (simp add: stop_comma)
    from parse_elements_more[OF this, of acc]
    have "parse_elements f (w @ e @ 44 # R) acc = parse_elements f' R (acc @ [ev])"
      by (simp add: f)
    also have "\<dots> = Got (JArr ((acc @ [ev]) @ norm_elems xs)) rest"
      unfolding R_def
    proof (rule 9(2)[OF wfxs False 9(5) _ 9(7)])
      show "list_all is_ws (10 # ind)" using 9(5) by (simp add: is_ws_10)
      show "2 * length ((10 # ind) @ join (44 # 10 # ind) (SerializeJSONArray ind xs) @ 10 # stepback @ 93 # rest) + 1 < f'"
        using fuel by (simp add: R_def)
    qed
    finally show ?thesis unfolding whole by (simp add: ev_def)
  qed
next
  case (10 ind)
  then show ?case by simp
next
  case (11 ind k v kvs)
  from 11(9) obtain f' where f: "f = Suc f'" by (cases f) auto
  have wfv: "well_formed v" and wfkvs: "well_formed_members kvs" using 11(4) by simp_all
  let ?g = "\<lambda>a (k, v). obj_set k v a"
  show ?case
  proof (cases "SerializeJSONProperty ind v")
    case None
    then have v: "v = JUndefined" by (simp add: serialize_None)
    from None 11(5) have ne: "SerializeJSONObject ind kvs \<noteq> []" by simp
    from None 11(9)
    have fuel: "2 * length (w @ join (44 # 10 # ind) (SerializeJSONObject ind kvs) @ 10 # stepback @ 125 # rest) + 1 < f"
      by simp
    from 11(2)[OF None wfkvs ne 11(6) 11(7) 11(8) fuel, of macc] None v
    show ?thesis by simp
  next
    case (Some sv)
    then have v: "v \<noteq> JUndefined" using serialize_None[of ind v] by auto
    have pv: "\<And>R. stop R \<Longrightarrow> 2 * length (sv @ R) < f' \<Longrightarrow>
        parse_value f' (32 # sv @ R) = Got (norm v) R"
    proof -
      fix R assume R: "stop R" "2 * length (sv @ R) < f'"
      have "list_all is_ws [32]" by (simp add: is_ws_def)
      from parse_value_ws[OF this, of f' "sv @ R"] 11(1)[OF wfv Some 11(6) R]
      show "parse_value f' (32 # sv @ R) = Got (norm v) R" by simp
    qed
    show ?thesis
    proof (cases "SerializeJSONObject ind kvs = []")
      case True
      then have nm: "norm_members kvs = []" by (simp add: SerializeJSONObject_Nil)
      have whole: "w @ join (44 # 10 # ind) (SerializeJSONObject ind ((k, v) # kvs)) @ 10 # stepback @ 125 # rest
          = w @ QuoteJSONString k @ 58 # (32 # sv @ (10 # stepback) @ 125 # rest)"
        using True Some by (simp add: str_def)
      from 11(9) have "2 * length (sv @ (10 # stepback) @ 125 # rest) < f'"
        by (simp only: whole f) simp
      from pv[OF _ this]
      have "parse_value f' (32 # sv @ (10 # stepback) @ 125 # rest) = Got (norm v) ((10 # stepback) @ 125 # rest)"
        by (simp add: stop_newline)
      from parse_members_last[OF 11(7) this, of k macc] 11(8)
      have "parse_members f (w @ QuoteJSONString k @ 58 # (32 # sv @ (10 # stepback) @ 125 # rest)) macc
          = Got (JObj (obj_set k (norm v) macc)) rest"
        by (simp add: f is_ws_10)
      then show ?thesis unfolding whole using v nm by simp
    next
      case False
      define R where "R = (10 # ind) @ join (44 # 10 # ind) (SerializeJSONObject ind kvs) @ 10 # stepback @ 125 # rest"
      have whole: "w @ join (44 # 10 # ind) (SerializeJSONObject ind ((k, v) # kvs)) @ 10 # stepback @ 125 # rest
          = w @ QuoteJSONString k @ 58 # (32 # sv @ 44 # R)"
        using False Some by (simp add: str_def join_Cons R_def)
      from 11(9) have fuel: "2 * length (sv @ 44 # R) < f'"
        by (simp only: whole f) simp
      from pv[OF _ this]
      have "parse_value f' (32 # sv @ 44 # R) = Got (norm v) (44 # R)"
        by (simp add: stop_comma)
      from parse_members_more[OF 11(7) this, of k macc]
      have "parse_members f (w @ QuoteJSONString k @ 58 # (32 # sv @ 44 # R)) macc
          = parse_members f' R (obj_set k (norm v) macc)"
        by (simp add: f)
      also have "\<dots> = Got (JObj (foldl ?g (obj_set k (norm v) macc) (norm_members kvs))) rest"
        unfolding R_def
      proof (rule 11(3)[OF Some wfkvs False 11(6) _ 11(8)])
        show "list_all is_ws (10 # ind)" using 11(6) by (simp add: is_ws_10)
        show "2 * length ((10 # ind) @ join (44 # 10 # ind) (SerializeJSONObject ind kvs) @ 10 # stepback @ 125 # rest) + 1 < f'"
          using fuel by (simp add: R_def)
      qed
      finally show ?thesis unfolding whole using v by simp
    qed
  qed
qed

lemma JSON_parse_stringify:
  assumes "well_formed v" "JSON_stringify v = Some s"
  shows "JSON_parse s = Inr (norm v)"
proof -
  have "parse_value (2 * length s + 1) (s @ []) = Got (norm v) []"
    by (rule roundtrip_mutual(1)[OF assms(1) assms(2)[unfolded JSON_stringify_def]])
       (simp_all add: stop_def)
  then show ?thesis by (simp add: JSON_parse_def skip_ws_def)
qed

section \<open>What JSON.parse returns\<close>

subsection \<open>Array indices are canonical\<close>

lemma digits_nat_of_digits:
  "list_all is_digit k \<Longrightarrow> k \<noteq> [] \<Longrightarrow> hd k \<noteq> 48 \<or> length k = 1 \<Longrightarrow>
   digits (nat_of_digits k) = k"
proof (induction k rule: rev_induct)
  case Nil
  then show ?case by simp
next
  case (snoc c ds)
  have c: "is_digit c" using snoc.prems(1) by simp
  then have c48: "48 + (c - 48) = c" "c - 48 < 10" by (auto simp: is_digit_def)
  show ?case
  proof (cases "ds = []")
    case True
    with c48 show ?thesis by (simp add: nat_of_digits_def digits.simps)
  next
    case False
    with snoc.prems have hd: "hd ds \<noteq> 48" by auto
    from snoc.prems(1) have "list_all is_digit ds" by simp
    from snoc.IH[OF this False] hd have IH: "digits (nat_of_digits ds) = ds" by simp
    have pos: "nat_of_digits ds \<noteq> 0"
    proof
      assume "nat_of_digits ds = 0"
      with IH have "ds = [48]" by (simp add: digits.simps)
      with hd show False by simp
    qed
    define n where "n = nat_of_digits (ds @ [c])"
    define d where "d = c - 48"
    have d: "d < 10" "48 + d = c" using c48 by (simp_all add: d_def)
    have n: "n = 10 * nat_of_digits ds + d"
      unfolding n_def d_def by (rule nat_of_digits_snoc)
    with pos d(1) have "\<not> n < 10" "n div 10 = nat_of_digits ds" "n mod 10 = d" by auto
    then have "digits n = ds @ [c]"
      using IH d(2) by (subst digits.simps) simp
    then show ?thesis by (simp add: n_def)
  qed
qed

lemma array_index_digits: "array_index k = Some i \<Longrightarrow> k = digits i"
  using digits_nat_of_digits[of k] by (auto simp: array_index_def split: if_splits)

lemma array_index_inj: "array_index k = Some i \<Longrightarrow> array_index k' = Some i \<Longrightarrow> k = k'"
  using array_index_digits by metis

lemma obj_set_ordered:
  assumes "js_ordered (map fst kvs)"
  shows "js_ordered (map fst (obj_set k v kvs))"
proof (cases "k \<in> set (map fst kvs)")
  case True
  have "map fst (map (\<lambda>(k', v'). if k' = k then (k', v) else (k', v')) kvs) = map fst kvs"
    by (induction kvs) auto
  with True assms show ?thesis by (simp add: obj_set_def del: map_map)
next
  case False
  let ?g = "\<lambda>(k', v'). goes_before k' k"
  define P where "P = map fst (takeWhile ?g kvs)"
  define S where "S = map fst (dropWhile ?g kvs)"
  have split: "map fst kvs = P @ S"
    unfolding P_def S_def by (simp only: map_append[symmetric] takeWhile_dropWhile_id)
  from assms have PS: "js_ordered P" "js_ordered S"
      "\<forall>a\<in>set P. \<forall>b\<in>set S. a \<noteq> b \<and> goes_before a b"
    unfolding split js_ordered_append by simp_all
  have Pk: "\<forall>a\<in>set P. a \<noteq> k \<and> goes_before a k"
  proof
    fix a assume "a \<in> set P"
    then obtain b where ab: "(a, b) \<in> set (takeWhile ?g kvs)" by (auto simp: P_def)
    then have "goes_before a k" using set_takeWhileD[OF ab] by simp
    moreover from ab have "a \<in> set (map fst kvs)" using set_takeWhileD[OF ab] by force
    ultimately show "a \<noteq> k \<and> goes_before a k" using False by auto
  qed
  have kS: "list_all (\<lambda>k'. k \<noteq> k' \<and> goes_before k k') S"
  proof (cases "dropWhile ?g kvs")
    case Nil
    show ?thesis unfolding S_def Nil by simp
  next
    case (Cons kv0 rest)
    obtain k0 v0 where kv0: "kv0 = (k0, v0)" by (cases kv0)
    have S: "S = k0 # map fst rest" by (simp add: S_def Cons kv0)
    have "\<not> ?g (hd (dropWhile ?g kvs))"
      by (rule hd_dropWhile) (simp add: Cons)
    then have nb: "\<not> goes_before k0 k" by (simp add: Cons kv0)
    then obtain j where j: "array_index k = Some j"
      by (auto simp: goes_before_def split: option.splits)
    have k0: "array_index k0 = None \<or> (\<exists>i0. array_index k0 = Some i0 \<and> j \<le> i0)"
      using nb j by (auto simp: goes_before_def split: option.splits)
    have k0k: "k0 \<noteq> k" using False split S by auto
    have later: "list_all (\<lambda>k'. k0 \<noteq> k' \<and> goes_before k0 k') (map fst rest)"
      using PS(2) by (simp add: S)
    have "\<And>b. b \<in> set S \<Longrightarrow> k \<noteq> b \<and> goes_before k b"
    proof -
      fix b assume b: "b \<in> set S"
      then have neq: "k \<noteq> b" using False split by auto
      have "goes_before k b"
      proof (cases "array_index b")
        case None
        then show ?thesis by (simp add: goes_before_def)
      next
        case (Some ib)
        have "j < ib"
        proof (cases "b = k0")
          case True
          with Some k0 have "j \<le> ib" by auto
          moreover have "j \<noteq> ib" using array_index_inj[OF j, of b] Some neq by auto
          ultimately show ?thesis by simp
        next
          case False
          with b have "b \<in> set (map fst rest)" by (simp add: S)
          with later have "goes_before k0 b" by (auto simp: list_all_iff)
          with Some obtain i0 where "array_index k0 = Some i0" "i0 < ib"
            by (auto simp: goes_before_def split: option.splits)
          with k0 show ?thesis by auto
        qed
        with Some j show ?thesis by (simp add: goes_before_def)
      qed
      with neq show "k \<noteq> b \<and> goes_before k b" by simp
    qed
    then show ?thesis by (simp add: list_all_iff)
  qed
  have "map fst (obj_set k v kvs) = P @ k # S"
    using False by (simp add: obj_set_def P_def S_def)
  moreover have "js_ordered (P @ k # S)"
    unfolding js_ordered_append using PS Pk kS by simp
  ultimately show ?thesis by simp
qed

lemma obj_set_values:
  "(k', v') \<in> set (obj_set k v kvs) \<Longrightarrow> v' = v \<or> (k', v') \<in> set kvs"
proof (cases "k \<in> set (map fst kvs)")
  case True
  assume "(k', v') \<in> set (obj_set k v kvs)"
  with True show ?thesis by (auto simp: obj_set_def split: if_splits)
next
  case False
  assume "(k', v') \<in> set (obj_set k v kvs)"
  with False have "(k', v') \<in> set (takeWhile (\<lambda>(k', v'). goes_before k' k) kvs)
      \<or> (k', v') = (k, v) \<or> (k', v') \<in> set (dropWhile (\<lambda>(k', v'). goes_before k' k) kvs)"
    by (auto simp: obj_set_def)
  then show ?thesis
    using set_takeWhileD set_dropWhileD by fastforce
qed

subsection \<open>Parsed values are JSON values\<close>

lemma length_norm_members: "length (norm_members kvs) \<le> length kvs"
  by (induction kvs) (auto split: if_splits)

lemma json_elems:
  "well_formed_elems xs \<and> norm_elems xs = xs \<longleftrightarrow> list_all json_value xs"
  by (induction xs) (auto simp: json_value_def)

lemma json_members:
  "well_formed_members kvs \<and> norm_members kvs = kvs \<longleftrightarrow> list_all (\<lambda>kv. json_value (snd kv)) kvs"
proof (induction kvs)
  case Nil
  show ?case by simp
next
  case (Cons kv kvs)
  obtain k v where kv: "kv = (k, v)" by (cases kv)
  show ?case
  proof (cases "v = JUndefined")
    case True
    have "norm_members kvs \<noteq> (k, v) # kvs"
    proof
      assume "norm_members kvs = (k, v) # kvs"
      then have "length (norm_members kvs) = Suc (length kvs)" by simp
      with length_norm_members[of kvs] show False by simp
    qed
    with True show ?thesis by (simp add: kv json_value_def)
  next
    case False
    with Cons show ?thesis by (auto simp: kv json_value_def)
  qed
qed

lemma json_value_JArr: "json_value (JArr xs) \<longleftrightarrow> list_all json_value xs"
  using json_elems[of xs] by (simp add: json_value_def)

lemma json_value_JObj:
  "json_value (JObj kvs) \<longleftrightarrow>
     js_ordered (map fst kvs) \<and> list_all (\<lambda>kv. json_value (snd kv)) kvs"
  using json_members[of kvs] by (auto simp: json_value_def)

lemma json_value_scalar:
  "json_value JNull" "json_value (JBool b)" "json_value (JStr s)"
  "json_value (JNum (normalise n))" "\<not> json_value JUndefined"
  by (simp_all add: json_value_def normalise_idem)

lemma parse_number_canonical: "parse_number s = Some (n, r) \<Longrightarrow> json_value (JNum n)"
  by (auto simp: parse_number_def Let_def json_value_scalar split: if_splits option.splits prod.splits)

lemma obj_set_json:
  assumes "js_ordered (map fst acc)" "list_all (\<lambda>kv. json_value (snd kv)) acc" "json_value v"
  shows "json_value (JObj (obj_set k v acc))"
proof -
  have "list_all (\<lambda>kv. json_value (snd kv)) (obj_set k v acc)"
    unfolding list_all_iff
  proof
    fix kv assume "kv \<in> set (obj_set k v acc)"
    then have "snd kv = v \<or> kv \<in> set acc" using obj_set_values[of "fst kv" "snd kv" k v acc] by simp
    with assms(2,3) show "json_value (snd kv)" by (auto simp: list_all_iff)
  qed
  with obj_set_ordered[OF assms(1), of k v] show ?thesis by (simp add: json_value_JObj)
qed

lemma parse_json_value:
  "(\<forall>s v r. parse_value f s = Got v r \<longrightarrow> json_value v) \<and>
   (\<forall>s acc v r. parse_elements f s acc = Got v r \<longrightarrow> list_all json_value acc \<longrightarrow> json_value v) \<and>
   (\<forall>s acc v r. parse_members f s acc = Got v r \<longrightarrow> js_ordered (map fst acc) \<longrightarrow>
       list_all (\<lambda>kv. json_value (snd kv)) acc \<longrightarrow> json_value v)"
proof (induction f)
  case 0
  show ?case by simp
next
  case (Suc f)
  then have V: "\<And>s v r. parse_value f s = Got v r \<Longrightarrow> json_value v"
    and E: "\<And>s acc v r. parse_elements f s acc = Got v r \<Longrightarrow> list_all json_value acc \<Longrightarrow> json_value v"
    and M: "\<And>s acc v r. parse_members f s acc = Got v r \<Longrightarrow> js_ordered (map fst acc) \<Longrightarrow>
       list_all (\<lambda>kv. json_value (snd kv)) acc \<Longrightarrow> json_value v"
    by blast+
  have empty: "json_value (JArr [])" "json_value (JObj [])"
    by (simp_all add: json_value_JArr json_value_JObj)
  have v: "\<And>s v r. parse_value (Suc f) s = Got v r \<Longrightarrow> json_value v"
  proof -
    fix s v r assume "parse_value (Suc f) s = Got v r"
    then show "json_value v"
      using E[of _ "[]"] M[of _ "[]"] empty
      by (auto simp: parse_value.simps json_value_scalar parse_number_canonical
          split: list.splits if_splits option.splits prod.splits)
  qed
  have e: "\<And>s acc v r. parse_elements (Suc f) s acc = Got v r \<Longrightarrow> list_all json_value acc \<Longrightarrow> json_value v"
  proof -
    fix s acc v r
    assume p: "parse_elements (Suc f) s acc = Got v r" and acc: "list_all json_value acc"
    from p obtain x t where x: "parse_value f s = Got x t"
      by (auto simp: parse_elements.simps split: parsed.splits)
    from V[OF x] acc have acc': "list_all json_value (acc @ [x])" by simp
    from p x show "json_value v"
      using E[OF _ acc'] acc'
      by (auto simp: parse_elements.simps json_value_JArr split: list.splits if_splits)
  qed
  have m: "\<And>s acc v r. parse_members (Suc f) s acc = Got v r \<Longrightarrow> js_ordered (map fst acc) \<Longrightarrow>
       list_all (\<lambda>kv. json_value (snd kv)) acc \<Longrightarrow> json_value v"
  proof -
    fix s acc v r
    assume p: "parse_members (Suc f) s acc = Got v r" and ord: "js_ordered (map fst acc)"
      and acc: "list_all (\<lambda>kv. json_value (snd kv)) acc"
    from p obtain k u x t where k: "parse_value f u = Got x t"
      and rest: "(case skip_ws t of [] \<Rightarrow> Bad
           | d # t' \<Rightarrow> if d = 44 then parse_members f t' (obj_set k x acc)
               else if d = 125 then Got (JObj (obj_set k x acc)) t' else Bad) = Got v r"
      by (auto simp: parse_members.simps split: list.splits if_splits option.splits prod.splits parsed.splits)
    from obj_set_json[OF ord acc V[OF k], of k]
    have o: "js_ordered (map fst (obj_set k x acc))"
      "list_all (\<lambda>kv. json_value (snd kv)) (obj_set k x acc)"
      "json_value (JObj (obj_set k x acc))"
      by (simp_all add: json_value_JObj)
    from rest show "json_value v"
      using M[OF _ o(1,2)] o(3) by (auto split: list.splits if_splits)
  qed
  from v e m show ?case by blast
qed

lemma JSON_parse_json_value: "JSON_parse s = Inr v \<Longrightarrow> json_value v"
  using parse_json_value[of "2 * length s + 1"]
  by (auto simp: JSON_parse_def split: parsed.splits if_splits)

lemma deep_clone_parsed: "JSON_parse s = Inr root \<Longrightarrow> deep_clone root = Inr root"
proof -
  assume "JSON_parse s = Inr root"
  then have j: "json_value root" by (rule JSON_parse_json_value)
  then obtain t where t: "JSON_stringify root = Some t"
    using serialize_None[of "[]" root] by (auto simp: json_value_def JSON_stringify_def)
  from JSON_parse_stringify[OF _ t] j show ?thesis
    by (simp add: deep_clone_def t json_value_def)
qed

subsection \<open>The parser consumes its input and never runs out of fuel\<close>

lemma skip_ws_length: "length (skip_ws s) \<le> length s"
  by (simp add: skip_ws_def length_dropWhile_le)

lemma skip_ws_Cons: "skip_ws s = c # cs \<Longrightarrow> length cs < length s"
  using skip_ws_length[of s] by simp

lemma cons_unit_Some:
  "cons_unit u p = Some (s, r) \<Longrightarrow> \<exists>s'. p = Some (s', r)"
  by (auto simp: cons_unit_def split: option.splits)

lemma parse_chars_escape:
  assumes "parse_chars (92 # cs') = Some (s, r)"
  shows "(\<exists>h1 h2 h3 h4 t' u. cs' = 117 # h1 # h2 # h3 # h4 # t' \<and> cons_unit u (parse_chars t') = Some (s, r))
       \<or> (\<exists>e t u. cs' = e # t \<and> cons_unit u (parse_chars t) = Some (s, r))"
proof (cases cs')
  case Nil
  with assms show ?thesis by (simp add: parse_chars.simps)
next
  case (Cons e t)
  show ?thesis
  proof (cases "e = 117")
    case False
    with assms Cons show ?thesis
      by (simp add: parse_chars.simps split: option.splits) blast
  next
    case True
    with assms Cons have
      "(case t of h1 # h2 # h3 # h4 # r' \<Rightarrow>
          (case hex4 h1 h2 h3 h4 of None \<Rightarrow> None | Some u \<Rightarrow> cons_unit u (parse_chars r'))
        | _ \<Rightarrow> None) = Some (s, r)"
      by (simp add: parse_chars.simps)
    then obtain h1 h2 h3 h4 t' where t: "t = h1 # h2 # h3 # h4 # t'"
      and h: "(case hex4 h1 h2 h3 h4 of None \<Rightarrow> None | Some u \<Rightarrow> cons_unit u (parse_chars t')) = Some (s, r)"
      by (cases t; simp; cases "tl t"; simp; cases "tl (tl t)"; simp; cases "tl (tl (tl t))"; simp)
    from h obtain u where "cons_unit u (parse_chars t') = Some (s, r)"
      by (cases "hex4 h1 h2 h3 h4") auto
    with t Cons True show ?thesis by blast
  qed
qed

lemma parse_chars_shorter: "parse_chars cs = Some (s, r) \<Longrightarrow> length r < length cs"
proof (induction "length cs" arbitrary: cs s rule: less_induct)
  case less
  show ?case
  proof (cases cs)
    case Nil
    with less.prems show ?thesis by simp
  next
    case (Cons c cs')
    consider (quote) "c = 34"
      | (hex) h1 h2 h3 h4 t' s' where "cs' = 117 # h1 # h2 # h3 # h4 # t'" "parse_chars t' = Some (s', r)"
      | (short) e t s' where "cs' = e # t" "parse_chars t = Some (s', r)"
      | (plain) s' where "parse_chars cs' = Some (s', r)"
    proof (cases "c = 34")
      case True
      then show ?thesis by (rule quote)
    next
      case c34: False
      show ?thesis
      proof (cases "c = 92")
        case True
        with less.prems Cons have "parse_chars (92 # cs') = Some (s, r)" by simp
        from parse_chars_escape[OF this] show ?thesis
        proof
          assume "\<exists>h1 h2 h3 h4 t' u. cs' = 117 # h1 # h2 # h3 # h4 # t'
              \<and> cons_unit u (parse_chars t') = Some (s, r)"
          then obtain h1 h2 h3 h4 t' u where "cs' = 117 # h1 # h2 # h3 # h4 # t'"
            "cons_unit u (parse_chars t') = Some (s, r)" by blast
          with cons_unit_Some[OF this(2)] show ?thesis using hex by blast
        next
          assume "\<exists>e t u. cs' = e # t \<and> cons_unit u (parse_chars t) = Some (s, r)"
          then obtain e t u where "cs' = e # t" "cons_unit u (parse_chars t) = Some (s, r)"
            by blast
          with cons_unit_Some[OF this(2)] show ?thesis using short by blast
        qed
      next
        case False
        with c34 less.prems Cons have "cons_unit c (parse_chars cs') = Some (s, r)"
          by (auto simp: parse_chars.simps split: if_splits)
        from cons_unit_Some[OF this] show ?thesis using plain by blast
      qed
    qed
    then show ?thesis
    proof cases
      case quote
      with less.prems Cons show ?thesis by (simp add: parse_chars.simps)
    next
      case hex
      from less.hyps[OF _ hex(2)] hex(1) Cons show ?thesis by simp
    next
      case short
      from less.hyps[OF _ short(2)] short(1) Cons show ?thesis by simp
    next
      case plain
      from less.hyps[OF _ plain] Cons show ?thesis by simp
    qed
  qed
qed

lemma parse_fraction_length: "parse_fraction t = Some (fp, t') \<Longrightarrow> length t' \<le> length t"
  using length_dropWhile_le[of is_digit]
  by (auto simp: parse_fraction_def Let_def le_Suc_eq split: list.splits if_splits)

lemma parse_exponent_length: "parse_exponent t = Some (ex, t') \<Longrightarrow> length t' \<le> length t"
proof -
  have d: "\<And>xs. length (dropWhile is_digit xs) \<le> length xs" by (rule length_dropWhile_le)
  assume "parse_exponent t = Some (ex, t')"
  then show ?thesis
    using d
    by (auto simp: parse_exponent_def Let_def le_Suc_eq split: list.splits if_splits prod.splits)
qed

lemma parse_number_parts_of:
  assumes "parse_number s = Some (n, r)"
  shows "\<exists>s1 fp s3 ex. length s1 \<le> length s \<and> takeWhile is_digit s1 \<noteq> [] \<and>
      parse_fraction (dropWhile is_digit s1) = Some (fp, s3) \<and> parse_exponent s3 = Some (ex, r)"
proof -
  obtain ng s1 where sgn: "(case s of [] \<Rightarrow> (False, s) | c # r \<Rightarrow> if c = 45 then (True, r) else (False, s)) = (ng, s1)"
    by (cases "(case s of [] \<Rightarrow> (False, s) | c # r \<Rightarrow> if c = 45 then (True, r) else (False, s))")
  have len: "length s1 \<le> length s"
    using sgn by (cases s) (auto split: if_splits)
  define ip where "ip = takeWhile is_digit s1"
  define s2 where "s2 = dropWhile is_digit s1"
  have pn: "parse_number s =
      (if ip = [] \<or> (hd ip = 48 \<and> length ip \<noteq> 1) then None
       else (case parse_fraction s2 of None \<Rightarrow> None
         | Some (fp, s3) \<Rightarrow> (case parse_exponent s3 of None \<Rightarrow> None
            | Some (ex, s4) \<Rightarrow>
                Some (normalise (Dec (if ng then - int (nat_of_digits (ip @ fp))
                   else int (nat_of_digits (ip @ fp))) (ex - int (length fp))), s4))))"
    unfolding parse_number_def sgn ip_def s2_def by (simp only: Let_def prod.case)
  from assms pn have ip: "ip \<noteq> []" by (auto split: if_splits)
  with assms pn have c: "(case parse_fraction s2 of None \<Rightarrow> None
         | Some (fp, s3) \<Rightarrow> (case parse_exponent s3 of None \<Rightarrow> None
            | Some (ex, s4) \<Rightarrow>
                Some (normalise (Dec (if ng then - int (nat_of_digits (ip @ fp))
                   else int (nat_of_digits (ip @ fp))) (ex - int (length fp))), s4))) = Some (n, r)"
    by (simp split: if_splits)
  then obtain fp s3 where f: "parse_fraction s2 = Some (fp, s3)"
    by (cases "parse_fraction s2") auto
  with c obtain ex s4 where e: "parse_exponent s3 = Some (ex, s4)"
    by (cases "parse_exponent s3") auto
  with c f have "s4 = r" by simp
  with len ip f e show ?thesis unfolding ip_def s2_def by blast
qed

lemma parse_number_shorter: "parse_number s = Some (n, r) \<Longrightarrow> length r < length s"
proof -
  assume "parse_number s = Some (n, r)"
  from parse_number_parts_of[OF this] obtain s1 fp s3 ex where
    s1: "length s1 \<le> length s" and ip: "takeWhile is_digit s1 \<noteq> []"
    and f: "parse_fraction (dropWhile is_digit s1) = Some (fp, s3)"
    and e: "parse_exponent s3 = Some (ex, r)" by blast
  from parse_fraction_length[OF f] parse_exponent_length[OF e]
  have "length r \<le> length (dropWhile is_digit s1)" by simp
  moreover have "length (takeWhile is_digit s1) + length (dropWhile is_digit s1) = length s1"
    by (simp only: length_append[symmetric] takeWhile_dropWhile_id)
  moreover from ip have "0 < length (takeWhile is_digit s1)" by simp
  ultimately show ?thesis using s1 by linarith
qed

lemma expect_shorter: "expect lit s = Some r \<Longrightarrow> lit \<noteq> [] \<Longrightarrow> length r < length s"
proof -
  assume e: "expect lit s = Some r" and lit: "lit \<noteq> []"
  then have t: "take (length lit) s = lit" and r: "r = drop (length lit) s"
    by (auto simp: expect_def split: if_splits)
  from t lit have "s \<noteq> []" by auto
  with r lit show ?thesis by simp
qed

lemma parse_consumes:
  "(\<forall>s v r. parse_value f s = Got v r \<longrightarrow> length r < length s) \<and>
   (\<forall>s acc v r. parse_elements f s acc = Got v r \<longrightarrow> length r < length s) \<and>
   (\<forall>s acc v r. parse_members f s acc = Got v r \<longrightarrow> length r < length s)"
proof (induction f)
  case 0
  show ?case by simp
next
  case (Suc f)
  then have V: "\<And>s v r. parse_value f s = Got v r \<Longrightarrow> length r < length s"
    and E: "\<And>s acc v r. parse_elements f s acc = Got v r \<Longrightarrow> length r < length s"
    and M: "\<And>s acc v r. parse_members f s acc = Got v r \<Longrightarrow> length r < length s"
    by blast+
  have v: "\<And>s v r. parse_value (Suc f) s = Got v r \<Longrightarrow> length r < length s"
  proof -
    fix s v r assume p: "parse_value (Suc f) s = Got v r"
    then obtain c cs where c: "skip_ws s = c # cs" by (cases "skip_ws s") (auto simp: parse_value.simps)
    from skip_ws_Cons[OF c] have cs: "length cs < length s" .
    have sk: "length (c # cs) \<le> length s" using skip_ws_length[of s] c by simp
    have "length r \<le> length cs"
    proof -
      consider (obj) "c = 123" | (arr) "c \<noteq> 123" "c = 91" | (str) "c \<noteq> 123" "c \<noteq> 91" "c = 34"
        | (lit) "c \<noteq> 123" "c \<noteq> 91" "c \<noteq> 34" "c = 116 \<or> c = 102 \<or> c = 110"
        | (num) "c \<noteq> 123" "c \<noteq> 91" "c \<noteq> 34" "c \<noteq> 116" "c \<noteq> 102" "c \<noteq> 110"
        by blast
      then show ?thesis
      proof cases
        case obj
        with p c have "(case skip_ws cs of [] \<Rightarrow> Bad
            | d # t \<Rightarrow> if d = 125 then Got (JObj []) t else parse_members f cs []) = Got v r"
          by (simp add: parse_value.simps)
        then show ?thesis using M[of cs "[]" v r] skip_ws_Cons[of cs]
          by (auto split: list.splits if_splits simp: less_imp_le)
      next
        case arr
        with p c have "(case skip_ws cs of [] \<Rightarrow> Bad
            | d # t \<Rightarrow> if d = 93 then Got (JArr []) t else parse_elements f cs []) = Got v r"
          by (simp add: parse_value.simps)
        then show ?thesis using E[of cs "[]" v r] skip_ws_Cons[of cs]
          by (auto split: list.splits if_splits simp: less_imp_le)
      next
        case str
        with p c show ?thesis using parse_chars_shorter[of cs]
          by (auto simp: parse_value.simps less_imp_le split: option.splits)
      next
        case lit
        with p c show ?thesis
          using expect_shorter[of "str ''true'' " "c # cs"] expect_shorter[of "str ''false''" "c # cs"]
            expect_shorter[of "str ''null''" "c # cs"]
          by (auto simp: parse_value.simps str_def split: option.splits)
      next
        case num
        with p c show ?thesis using parse_number_shorter[of "c # cs"]
          by (auto simp: parse_value.simps split: option.splits)
      qed
    qed
    with cs show "length r < length s" by simp
  qed
  have e: "\<And>s acc v r. parse_elements (Suc f) s acc = Got v r \<Longrightarrow> length r < length s"
  proof -
    fix s acc v r assume p: "parse_elements (Suc f) s acc = Got v r"
    then obtain x t where x: "parse_value f s = Got x t"
      by (auto simp: parse_elements.simps split: parsed.splits)
    from p x obtain d t' where d: "skip_ws t = d # t'"
      by (cases "skip_ws t") (auto simp: parse_elements.simps)
    from V[OF x] skip_ws_Cons[OF d] have "length t' < length s" by simp
    with p x d show "length r < length s" using E[of t' "acc @ [x]" v r]
      by (auto simp: parse_elements.simps split: if_splits)
  qed
  have m: "\<And>s acc v r. parse_members (Suc f) s acc = Got v r \<Longrightarrow> length r < length s"
  proof -
    fix s acc v r assume p: "parse_members (Suc f) s acc = Got v r"
    then obtain q cs where q: "skip_ws s = q # cs" by (cases "skip_ws s") (auto simp: parse_members.simps)
    from p q obtain k t where k: "parse_chars cs = Some (k, t)"
      by (auto simp: parse_members.simps split: if_splits option.splits)
    from p q k obtain colon u where u: "skip_ws t = colon # u"
      by (cases "skip_ws t") (auto simp: parse_members.simps split: if_splits)
    from p q k u obtain x t' where x: "parse_value f u = Got x t'"
      by (auto simp: parse_members.simps split: if_splits parsed.splits)
    from p q k u x obtain d t'' where d: "skip_ws t' = d # t''"
      by (cases "skip_ws t'") (auto simp: parse_members.simps split: if_splits)
    from skip_ws_Cons[OF q] parse_chars_shorter[OF k] skip_ws_Cons[OF u] V[OF x] skip_ws_Cons[OF d]
    have "length t'' < length s" by simp
    with p q k u x d show "length r < length s" using M[of t'' "obj_set k x acc" v r]
      by (auto simp: parse_members.simps split: if_splits)
  qed
  from v e m show ?case by blast
qed

lemma parse_fuel:
  "(\<forall>s. 2 * length s < f \<longrightarrow> parse_value f s \<noteq> NoFuel) \<and>
   (\<forall>s acc. 2 * length s + 1 < f \<longrightarrow> parse_elements f s acc \<noteq> NoFuel) \<and>
   (\<forall>s acc. 2 * length s + 1 < f \<longrightarrow> parse_members f s acc \<noteq> NoFuel)"
proof (induction f)
  case 0
  show ?case by simp
next
  case (Suc f)
  then have V: "\<And>s. 2 * length s < f \<Longrightarrow> parse_value f s \<noteq> NoFuel"
    and E: "\<And>s acc. 2 * length s + 1 < f \<Longrightarrow> parse_elements f s acc \<noteq> NoFuel"
    and M: "\<And>s acc. 2 * length s + 1 < f \<Longrightarrow> parse_members f s acc \<noteq> NoFuel"
    by blast+
  note C = parse_consumes[of f]
  have v: "\<And>s. 2 * length s < Suc f \<Longrightarrow> parse_value (Suc f) s \<noteq> NoFuel"
  proof -
    fix s :: ustring assume f: "2 * length s < Suc f"
    show "parse_value (Suc f) s \<noteq> NoFuel"
    proof (cases "skip_ws s")
      case Nil
      then show ?thesis by (simp add: parse_value.simps)
    next
      case (Cons c cs)
      from skip_ws_Cons[OF Cons] f have "2 * length cs + 1 < f" by simp
      from E[OF this, of "[]"] M[OF this, of "[]"] Cons show ?thesis
        by (auto simp: parse_value.simps split: list.splits option.splits)
    qed
  qed
  have e: "\<And>s acc. 2 * length s + 1 < Suc f \<Longrightarrow> parse_elements (Suc f) s acc \<noteq> NoFuel"
  proof -
    fix s :: ustring and acc :: "jsval list" assume f: "2 * length s + 1 < Suc f"
    then have "2 * length s < f" by simp
    from V[OF this] show "parse_elements (Suc f) s acc \<noteq> NoFuel"
    proof (cases "parse_value f s")
      case (Got x t)
      with C have t: "length t < length s" by blast
      show ?thesis
      proof (cases "skip_ws t")
        case Nil
        with Got show ?thesis by (simp add: parse_elements.simps)
      next
        case (Cons d t')
        from skip_ws_Cons[OF Cons] t f have "2 * length t' + 1 < f" by simp
        from E[OF this, of "acc @ [x]"] Got Cons show ?thesis
          by (simp add: parse_elements.simps)
      qed
    qed (simp_all add: parse_elements.simps)
  qed
  have m: "\<And>s acc. 2 * length s + 1 < Suc f \<Longrightarrow> parse_members (Suc f) s acc \<noteq> NoFuel"
  proof -
    fix s :: ustring and acc :: "(ustring \<times> jsval) list" assume f: "2 * length s + 1 < Suc f"
    show "parse_members (Suc f) s acc \<noteq> NoFuel"
    proof (cases "skip_ws s")
      case Nil
      then show ?thesis by (simp add: parse_members.simps)
    next
      case q: (Cons q cs)
      show ?thesis
      proof (cases "parse_chars cs")
        case None
        with q show ?thesis by (simp add: parse_members.simps)
      next
        case (Some kr)
        obtain k r where kr: "kr = (k, r)" by (cases kr)
        show ?thesis
        proof (cases "skip_ws r")
          case Nil
          with q Some kr show ?thesis by (simp add: parse_members.simps)
        next
          case u: (Cons colon u)
          from skip_ws_Cons[OF q] parse_chars_shorter[OF Some[unfolded kr]] skip_ws_Cons[OF u] f
          have lu: "length u + 2 < length s" "2 * length u < f" by simp_all
          show ?thesis
          proof (cases "parse_value f u")
            case (Got x t)
            with C have t: "length t < length u" by blast
            show ?thesis
            proof (cases "skip_ws t")
              case Nil
              with q Some kr u Got show ?thesis by (simp add: parse_members.simps)
            next
              case (Cons d t')
              from skip_ws_Cons[OF Cons] t lu f have "2 * length t' + 1 < f" by simp
              from M[OF this, of "obj_set k x acc"] q Some kr u Got Cons show ?thesis
                by (simp add: parse_members.simps)
            qed
          next
            case Bad
            with q Some kr u show ?thesis by (simp add: parse_members.simps)
          next
            case NoFuel
            with V[OF lu(2)] show ?thesis by simp
          qed
        qed
      qed
    qed
  qed
  from v e m show ?case by blast
qed

lemma JSON_parse_fuel: "parse_value (2 * length s + 1) s \<noteq> NoFuel"
  using parse_fuel[of "2 * length s + 1"] by simp

section \<open>Path rendering\<close>

lemma strip_zeros_value:
  "m \<noteq> 0 \<Longrightarrow> strip_zeros m e = (m', e') \<Longrightarrow>
   \<exists>j. m = m' * 10 ^ j \<and> e' = e + int j \<and> m' mod 10 \<noteq> 0"
proof (induction m e rule: strip_zeros.induct)
  case (1 m e)
  show ?case
  proof (cases "m mod 10 = 0")
    case True
    with 1(2) have nz: "m div 10 \<noteq> 0" by auto
    from True 1(2,3) have "strip_zeros (m div 10) (e + 1) = (m', e')"
      by (subst (asm) strip_zeros.simps) simp
    from 1(1)[OF _ nz this] 1(2) True
    obtain j where j: "m div 10 = m' * 10 ^ j" "e' = e + 1 + int j" "m' mod 10 \<noteq> 0" by auto
    from True have "m = (m div 10) * 10" by auto
    with j have "m = m' * 10 ^ Suc j" "e' = e + int (Suc j)" by simp_all
    with j(3) show ?thesis by blast
  next
    case False
    with 1(3) have "m' = m" "e' = e" by (simp_all add: strip_zeros_canon)
    with False show ?thesis by (intro exI[of _ 0]) simp
  qed
qed

lemma digits_times_10: "0 < a \<Longrightarrow> digits (a * 10) = digits a @ [48]"
  by (subst digits.simps) simp

lemma digits_times_pow: "0 < a \<Longrightarrow> digits (a * 10 ^ j) = digits a @ replicate j 48"
proof (induction j)
  case 0
  show ?case by simp
next
  case (Suc j)
  then have "digits (a * 10 ^ j * 10) = digits (a * 10 ^ j) @ [48]"
    by (intro digits_times_10) simp
  moreover have "a * 10 ^ Suc j = a * 10 ^ j * 10" by simp
  ultimately show ?case
    using Suc by (simp only: replicate_Suc replicate_append_same append_assoc[symmetric])
       (simp add: replicate_append_same)
qed

lemma length_digits_le: "n < 10 ^ k \<Longrightarrow> 0 < k \<Longrightarrow> length (digits n) \<le> k"
proof (induction n arbitrary: k rule: digits.induct)
  case (1 n)
  show ?case
  proof (cases "n < 10")
    case True
    with 1(3) show ?thesis by (subst digits.simps) simp
  next
    case False
    from 1(3) obtain k' where k: "k = Suc k'" by (cases k) auto
    with 1(2) have d: "n div 10 < 10 ^ k'" by (simp add: less_mult_imp_div_less mult.commute)
    with False have "0 < k'" by (cases k') auto
    from 1(1)[OF False d this] False k show ?thesis
      by (subst digits.simps) simp
  qed
qed

lemma number_to_string_integer:
  assumes "0 < i" "i < 10 ^ 21"
  shows "number_to_string (Dec (if neg then - int i else int i) 0)
       = (if neg then [45] else []) @ digits i"
proof -
  obtain a e where s: "strip_zeros i 0 = (a, e)" by force
  from assms(1) have i0: "i \<noteq> 0" by simp
  from strip_zeros_value[OF i0 s] obtain j where
    j: "i = a * 10 ^ j" "e = int j" "a mod 10 \<noteq> 0" by auto
  then have a0: "0 < a" by (cases "a = 0") auto
  have N: "normalise (Dec (if neg then - int i else int i) 0)
      = Dec (if neg then - int a else int a) (int j)"
    using normalise_nat[OF i0 s, of neg] j(2) by simp
  have d: "digits i = digits a @ replicate j 48"
    unfolding j(1) by (rule digits_times_pow[OF a0])
  have "length (digits i) \<le> 21" using length_digits_le[OF assms(2)] by simp
  then have len: "length (digits a) + j \<le> 21" by (simp add: d)
  have nz: "(if neg then - int a else int a) \<noteq> 0" using a0 by simp
  have ab: "nat \<bar>if neg then - int a else int a\<bar> = a" by simp
  have sg: "((if neg then - int a else int a) < 0) = neg" using a0 by simp
  show ?thesis
    unfolding number_to_string_def N
    using nz len
    by (simp only: number.case ab sg Let_def) (simp add: d str_def)
qed

lemma number_to_string_nat:
  assumes "i < 10 ^ 21"
  shows "number_to_string (Dec (int i) 0) = digits i"
proof (cases "i = 0")
  case True
  then show ?thesis
    by (simp add: number_to_string_def normalise_def str_def digits.simps)
next
  case False
  then have "0 < i" by simp
  from number_to_string_integer[OF this assms, of False] show ?thesis by simp
qed

lemma join_brackets:
  "xs \<noteq> [] \<Longrightarrow> [91] @ join [93, 91] xs @ [93] = concat (map (\<lambda>x. [91] @ x @ [93]) xs)"
  by (induction xs rule: induct_list012) simp_all

lemma render_segment_eq:
  "(\<lambda>seg. case seg of SNum n \<Rightarrow> number_to_string n | SStr s \<Rightarrow> str ''\"'' @ s @ str ''\"'')
     = render_segment"
proof (rule ext)
  fix seg
  show "(case seg of SNum n \<Rightarrow> number_to_string n | SStr s \<Rightarrow> str ''\"'' @ s @ str ''\"'')
     = render_segment seg"
    by (cases seg) (simp_all add: str_def)
qed

lemma jsonPathToString_Cons:
  "jsonPathToString (Some (seg # segs)) = str ''$'' @ concat (map bracketed (seg # segs))"
proof -
  have "jsonPathToString (Some (seg # segs)) =
      [36] @ ([91] @ join [93, 91] (map render_segment (seg # segs)) @ [93])"
    unfolding jsonPathToString_def Let_def render_segment_eq
    by (simp add: str_def del: join.simps)
  also have "\<dots> = [36] @ concat (map (\<lambda>x. [91] @ x @ [93]) (map render_segment (seg # segs)))"
    using join_brackets[of "map render_segment (seg # segs)"] by simp
  also have "\<dots> = str ''$'' @ concat (map bracketed (seg # segs))"
    by (simp add: str_def comp_def bracketed_def[abs_def])
  finally show ?thesis .
qed

text \<open>
  C5, as the specification words it, fails for the numeric segments that are no natural
  number below \<open>10^21\<close>: they are rendered with an exponent, a sign or a decimal point.
\<close>

theorem jsonPathToString_exponent:
  "jsonPathToString (Some [SNum (Dec 1 21)]) = str ''$[1e+21]'' \<and>
   \<not> list_all is_digit (number_to_string (Dec 1 21)) \<and>
   jsonPathToString (Some [SNum (Dec (- 1) 0)]) = str ''$[-1]'' \<and>
   jsonPathToString (Some [SNum (Dec 15 (- 1))]) = str ''$[1.5]''"
  by (simp add: jsonPathToString_def number_to_string_def normalise_def strip_zeros.simps
      digits.simps str_def is_digit_def)

text \<open>
  C5. \<open>jsonPathToString\<close> returns the root marker \<open>$\<close> for an absent or an empty path, and
  otherwise \<open>$\<close> followed by one bracket pair per segment, in order: a string segment
  between double quotes, as it is, and a numeric segment bare, as \<open>Number::toString\<close> prints
  it. For a natural number \<open>i\<close> below \<open>10^21\<close> that is the decimal numeral of \<open>i\<close>: digits
  only, which read back as \<open>i\<close>, without a leading zero; for its negative, a minus sign and
  that numeral.
\<close>

theorem jsonPathToString_rendering:
  assumes "i < 10 ^ 21"
  shows "jsonPathToString None = str ''$'' \<and>
   jsonPathToString (Some []) = str ''$'' \<and>
   jsonPathToString (Some (seg # segs)) = str ''$'' @ concat (map bracketed (seg # segs)) \<and>
   bracketed (SStr s) = str ''[\"'' @ s @ str ''\"]'' \<and>
   bracketed (SNum n) = str ''['' @ number_to_string n @ str '']'' \<and>
   number_to_string (Dec (int i) 0) = digits i \<and>
   (0 < i \<longrightarrow> number_to_string (Dec (- int i) 0) = str ''-'' @ digits i) \<and>
   list_all is_digit (digits i) \<and> nat_of_digits (digits i) = i \<and>
   (0 < i \<longrightarrow> hd (digits i) \<noteq> 48)"
proof -
  have neg: "0 < i \<longrightarrow> number_to_string (Dec (- int i) 0) = str ''-'' @ digits i"
  proof
    assume "0 < i"
    from number_to_string_integer[OF this assms, of True]
    show "number_to_string (Dec (- int i) 0) = str ''-'' @ digits i"
      by (simp add: str_def)
  qed
  have hd: "0 < i \<longrightarrow> hd (digits i) \<noteq> 48" using hd_digits by simp
  have a: "jsonPathToString None = str ''$''" by (simp add: jsonPathToString_def)
  have b: "jsonPathToString (Some []) = str ''$''" by (simp add: jsonPathToString_def)
  have c: "bracketed (SStr s) = str ''[\"'' @ s @ str ''\"]''"
    by (simp add: bracketed_def str_def)
  have d: "bracketed (SNum n) = str ''['' @ number_to_string n @ str '']''"
    by (simp add: bracketed_def str_def)
  from a b jsonPathToString_Cons[of seg segs] c d number_to_string_nat[OF assms] neg
    digits_all[of i] nat_of_digits_digits[of i] hd
  show ?thesis by (intro conjI)
qed

text \<open>The path of the third fruit's twelfth entry, and the numerals of 12 and -12.\<close>

theorem jsonPathToString_rendering_witness:
  "(12 :: nat) < 10 ^ 21 \<and>
   jsonPathToString (Some [SStr (str ''fruits''), SNum (Dec 0 0), SNum (Dec 12 0)])
     = str ''$[\"fruits\"][0][12]'' \<and>
   number_to_string (Dec 12 0) = str ''12'' \<and>
   number_to_string (Dec (- 12) 0) = str ''-12''"
  using jsonPathToString_rendering[of 12 "SStr (str ''fruits'')" "[SNum (Dec 0 0), SNum (Dec 12 0)]"]
    jsonPathToString_rendering[of 0]
  by (simp add: bracketed_def digits.simps str_def)

section \<open>Node content\<close>

lemma map_of_update_same:
  "map_of (map (\<lambda>(k', v'). if k' = k then (k', v) else (k', v')) kvs) k =
     (if k \<in> set (map fst kvs) then Some v else None)"
  by (induction kvs) (simp_all split: prod.splits)

lemma map_of_update_other:
  "k' \<noteq> k \<Longrightarrow>
   map_of (map (\<lambda>(a, b). if a = k then (a, v) else (a, b)) kvs) k' = map_of kvs k'"
  by (induction kvs) (simp_all split: prod.splits)

lemma map_of_obj_set:
  "map_of (obj_set k v kvs) k' = (if k' = k then Some v else map_of kvs k')"
proof (cases "k \<in> set (map fst kvs)")
  case True
  then show ?thesis
    by (cases "k' = k") (simp_all add: obj_set_def map_of_update_same map_of_update_other del: map_map)
next
  case False
  let ?g = "\<lambda>(k', v'). goes_before k' k"
  have none: "map_of (takeWhile ?g kvs) k = None"
  proof (rule ccontr)
    assume "map_of (takeWhile ?g kvs) k \<noteq> None"
    then obtain w where "(k, w) \<in> set (takeWhile ?g kvs)" by (auto dest: map_of_SomeD)
    then have "(k, w) \<in> set kvs" by (rule set_takeWhileD[THEN conjunct1])
    with False show False by force
  qed
  have "map_of kvs k' = map_of (takeWhile ?g kvs @ dropWhile ?g kvs) k'" by simp
  also have "\<dots> = (case map_of (takeWhile ?g kvs) k' of
      None \<Rightarrow> map_of (dropWhile ?g kvs) k' | Some x \<Rightarrow> Some x)"
    by (simp only: map_of_append map_add_def)
  finally have kvs: "map_of kvs k' = (case map_of (takeWhile ?g kvs) k' of
      None \<Rightarrow> map_of (dropWhile ?g kvs) k' | Some x \<Rightarrow> Some x)" .
  have "map_of (obj_set k v kvs) k' =
      (case map_of (takeWhile ?g kvs) k' of
         None \<Rightarrow> (if k' = k then Some v else map_of (dropWhile ?g kvs) k') | Some x \<Rightarrow> Some x)"
    using False by (simp add: obj_set_def map_add_def del: map_map split: option.splits)
  with kvs none show ?thesis by (auto split: option.splits)
qed

lemma foldl_filter:
  "foldl (\<lambda>a x. if P x then f a x else a) a xs = foldl f a (filter P xs)"
  by (induction xs arbitrary: a) simp_all


lemma obj_set_keys: "set (map fst (obj_set k v kvs)) = insert k (set (map fst kvs))"
proof (cases "k \<in> set (map fst kvs)")
  case True
  have "map fst (map (\<lambda>(k', v'). if k' = k then (k', v) else (k', v')) kvs) = map fst kvs"
    by (induction kvs) auto
  with True show ?thesis
    by (simp add: obj_set_def insert_absorb del: map_map)
next
  case False
  let ?P = "\<lambda>(k', v'). goes_before k' k"
  have "set (map fst (takeWhile ?P kvs @ dropWhile ?P kvs)) = set (map fst kvs)"
    by simp
  then have "set (map fst (takeWhile ?P kvs)) \<union> set (map fst (dropWhile ?P kvs))
      = set (map fst kvs)"
    by (simp only: map_append set_append)
  with False show ?thesis
    by (simp add: obj_set_def del: map_map)
qed

lemma object_state_snoc:
  "object_state (rows @ [r]) =
     (if scalar_row r then assign_property (the (row_key r)) (row_value r) (object_state rows)
      else object_state rows)"
  by (simp add: object_state_def)

lemma last_value_snoc:
  "last_value (rows @ [r]) k =
     (if scalar_row r \<and> row_key r = Some k then Some (row_value r) else last_value rows k)"
  by (simp add: last_value_def Let_def)

lemma assign_property_other:
  "k' \<noteq> proto_key \<Longrightarrow>
   map_of (snd (assign_property k v obj)) k' = (if k' = k then Some v else map_of (snd obj) k')"
  by (cases obj) (auto simp: assign_property_def map_of_obj_set)

lemma scalar_row_key: "scalar_row r \<Longrightarrow> row_key r = Some k \<longleftrightarrow> the (row_key r) = k"
  by (cases "row_key r") (simp_all add: scalar_row_def truthy_key_def)

lemma object_value:
  "k \<noteq> proto_key \<Longrightarrow> map_of (object_of_rows rows) k = last_value rows k"
proof (induction rows rule: rev_induct)
  case Nil
  show ?case by (simp add: object_of_rows_def object_state_def last_value_def)
next
  case (snoc r rows)
  show ?case
  proof (cases "scalar_row r")
    case True
    from snoc have IH: "map_of (snd (object_state rows)) k = last_value rows k"
      by (simp add: object_of_rows_def)
    show ?thesis
      unfolding object_of_rows_def object_state_snoc last_value_snoc
      using True IH scalar_row_key[OF True, of k] assign_property_other[OF snoc.prems]
      by auto
  next
    case False
    with snoc show ?thesis
      by (simp add: object_of_rows_def object_state_snoc last_value_snoc)
  qed
qed

lemma assign_property_ordered:
  "js_ordered (map fst (snd obj)) \<Longrightarrow> js_ordered (map fst (snd (assign_property k v obj)))"
  by (cases obj) (auto simp: assign_property_def obj_set_ordered simp del: map_map)

lemma object_ordered: "js_ordered (map fst (object_of_rows rows))"
proof (induction rows rule: rev_induct)
  case Nil
  show ?case by (simp add: object_of_rows_def object_state_def)
next
  case (snoc r rows)
  then show ?case
    unfolding object_of_rows_def object_state_snoc
    using assign_property_ordered by simp
qed

lemma object_setter:
  "list_all (\<lambda>r. \<not> (scalar_row r \<and> row_key r = Some proto_key \<and> is_prototype (row_value r))) rows
   \<Longrightarrow> fst (object_state rows) \<and> proto_key \<notin> set (map fst (snd (object_state rows)))"
proof (induction rows rule: rev_induct)
  case Nil
  show ?case by (simp add: object_state_def)
next
  case (snoc r rows)
  then have IH: "fst (object_state rows)" "proto_key \<notin> set (map fst (snd (object_state rows)))"
    by simp_all
  obtain s kvs where st: "object_state rows = (s, kvs)" by force
  show ?case
  proof (cases "scalar_row r")
    case False
    with IH show ?thesis by (simp add: object_state_snoc)
  next
    case True
    show ?thesis
    proof (cases "the (row_key r) = proto_key")
      case p: True
      with True have "row_key r = Some proto_key" using scalar_row_key[OF True] by simp
      with snoc.prems True have "\<not> is_prototype (row_value r)" by simp
      with IH st p True show ?thesis
        by (simp add: object_state_snoc assign_property_def)
    next
      case False
      have "set (map fst (obj_set (the (row_key r)) (row_value r) kvs))
          = insert (the (row_key r)) (set (map fst kvs))"
        by (rule obj_set_keys)
      with False IH st True show ?thesis
        by (simp add: object_state_snoc assign_property_def del: map_map set_map)
    qed
  qed
qed

lemma build_object_eq:
  "foldl (\<lambda>obj row.
       if truthy_key (row_key row) \<and> row_type row \<noteq> str ''array''
          \<and> row_type row \<noteq> str ''object''
       then assign_property (the (row_key row)) (row_value row) obj
       else obj) (True, []) rows = object_state rows"
proof -
  have "(\<lambda>obj row.
       if truthy_key (row_key row) \<and> row_type row \<noteq> str ''array''
          \<and> row_type row \<noteq> str ''object''
       then assign_property (the (row_key row)) (row_value row) obj
       else obj)
     = (\<lambda>obj row. if scalar_row row
          then (\<lambda>obj row. assign_property (the (row_key row)) (row_value row) obj) obj row
          else obj)"
    by (intro ext) (simp add: scalar_row_def)
  then show ?thesis
    unfolding object_state_def by (simp only: foldl_filter)
qed

lemma build_rows:
  "rows \<noteq> [] \<Longrightarrow> \<not> (length rows = 1 \<and> \<not> truthy_key (row_key (rows ! 0))) \<Longrightarrow>
   buildContentFromNode (Some \<lparr>node_text = rows, node_path = p\<rparr>) = content_of_rows rows"
proof -
  assume rows: "rows \<noteq> []"
    and multi: "\<not> (length rows = 1 \<and> \<not> truthy_key (row_key (rows ! 0)))"
  have "buildContentFromNode (Some \<lparr>node_text = rows, node_path = p\<rparr>) =
      (if length (map fst (object_of_rows rows)) \<noteq> 0
       then JSON_stringify (JObj (object_of_rows rows)) else Some [])"
    unfolding buildContentFromNode_def Let_def build_object_eq object_of_rows_def
    using rows multi by (auto simp del: One_nat_def)
  also have "\<dots> = content_of_rows rows"
    by (simp add: content_of_rows_def)
  finally show ?thesis .
qed


text \<open>The definitions that evaluate \<open>buildContentFromNode\<close> on given rows.\<close>

lemmas content_eval =
  buildContentFromNode_def content_of_rows_def content_of_value_def object_of_rows_def
  object_state_def scalar_row_def truthy_key_def assign_property_def is_prototype_def
  setter_through_def obj_set_def goes_before_def array_index_def is_digit_def nat_of_digits_def
  proto_key_def str_def JSON_stringify_def gap_def QuoteJSONString_def quote_unit_def
  is_lead_def is_trail_def number_to_string_def normalise_def strip_zeros.simps digits.simps
  last_value_def Let_def

text \<open>
  C10, as the specification words it, fails in three places. A single row without a key
  is shown whatever its type, so a nested container does appear; a single row whose key is
  the empty string counts as a row without a key; and a row with the key \<open>__proto__\<close>
  makes no property, so the content is empty although such a row exists.
\<close>

theorem buildContentFromNode_keyless:
  "buildContentFromNode (Some \<lparr>node_text =
       [\<lparr>row_key = None, row_value = JArr [JNum (Dec 1 0)], row_type = str ''array''\<rparr>],
     node_path = None\<rparr>) = Some (str ''['' @ [10] @ str ''  1'' @ [10] @ str '']'') \<and>
   buildContentFromNode (Some \<lparr>node_text =
       [\<lparr>row_key = Some [], row_value = JBool True, row_type = str ''boolean''\<rparr>],
     node_path = None\<rparr>) = Some (str ''true'') \<and>
   buildContentFromNode (Some \<lparr>node_text =
       [\<lparr>row_key = Some (str ''__proto__''), row_value = JNum (Dec 5 0),
         row_type = str ''number''\<rparr>],
     node_path = None\<rparr>) = Some []"
  by (simp add: content_eval)

text \<open>
  C10. \<open>buildContentFromNode\<close> returns the empty string for no node and for a node without
  rows; for a single row whose key is \<open>null\<close> or the empty string, the row's value itself
  when it is a string and its serialization otherwise, whatever the type of the row; in
  every other case the empty string when the object built from the rows has no property,
  and the serialization of that object otherwise. For every key but \<open>__proto__\<close> the object
  has the value of the last row with that key among the rows whose key is a non-empty
  string and whose type is neither \<open>array\<close> nor \<open>object\<close>, and no property when there
  is no such row; its keys are listed without repetition, array indices first. It has no
  property \<open>__proto__\<close> unless such a row gives \<open>__proto__\<close> an object, an array or \<open>null\<close>.
\<close>

theorem buildContentFromNode_content:
  "buildContentFromNode None = Some [] \<and>
   buildContentFromNode (Some \<lparr>node_text = [], node_path = p\<rparr>) = Some [] \<and>
   buildContentFromNode (Some \<lparr>node_text = [r], node_path = p\<rparr>) =
     (if truthy_key (row_key r) then content_of_rows [r] else content_of_value (row_value r)) \<and>
   buildContentFromNode (Some \<lparr>node_text = r # r' # rows, node_path = p\<rparr>) =
     content_of_rows (r # r' # rows) \<and>
   content_of_value v = (case v of JStr s \<Rightarrow> Some s | _ \<Rightarrow> JSON_stringify v) \<and>
   content_of_rows rs =
     (if object_of_rows rs = [] then Some [] else JSON_stringify (JObj (object_of_rows rs))) \<and>
   (k \<noteq> proto_key \<longrightarrow> map_of (object_of_rows rs) k = last_value rs k) \<and>
   last_value rs k =
     (let named = filter (\<lambda>row. truthy_key (row_key row) \<and> row_type row \<noteq> str ''array''
          \<and> row_type row \<noteq> str ''object'' \<and> row_key row = Some k) rs
      in if named = [] then None else Some (row_value (last named))) \<and>
   js_ordered (map fst (object_of_rows rs)) \<and>
   (list_all (\<lambda>r. \<not> (scalar_row r \<and> row_key r = Some proto_key \<and> is_prototype (row_value r))) rs
      \<longrightarrow> map_of (object_of_rows rs) proto_key = None)"
proof -
  have single: "buildContentFromNode (Some \<lparr>node_text = [r], node_path = p\<rparr>) =
     (if truthy_key (row_key r) then content_of_rows [r] else content_of_value (row_value r))"
  proof (cases "truthy_key (row_key r)")
    case True
    then show ?thesis using build_rows[of "[r]" p] by simp
  next
    case False
    then show ?thesis
      by (simp add: buildContentFromNode_def content_of_value_def Let_def)
  qed
  have many: "buildContentFromNode (Some \<lparr>node_text = r # r' # rows, node_path = p\<rparr>) =
     content_of_rows (r # r' # rows)"
    using build_rows[of "r # r' # rows" p] by simp
  have none: "buildContentFromNode None = Some []"
    by (simp add: buildContentFromNode_def)
  have empty: "buildContentFromNode (Some \<lparr>node_text = [], node_path = p\<rparr>) = Some []"
    by (simp add: buildContentFromNode_def)
  have val: "content_of_value v = (case v of JStr s \<Rightarrow> Some s | _ \<Rightarrow> JSON_stringify v)"
    by (simp add: content_of_value_def)
  have rows: "content_of_rows rs =
     (if object_of_rows rs = [] then Some [] else JSON_stringify (JObj (object_of_rows rs)))"
    by (simp add: content_of_rows_def)
  have vals: "k \<noteq> proto_key \<longrightarrow> map_of (object_of_rows rs) k = last_value rs k"
    using object_value by simp
  have "(\<lambda>row. scalar_row row \<and> row_key row = Some k) =
      (\<lambda>row. truthy_key (row_key row) \<and> row_type row \<noteq> str ''array''
          \<and> row_type row \<noteq> str ''object'' \<and> row_key row = Some k)"
    by (intro ext) (simp add: scalar_row_def)
  then have lastv: "last_value rs k =
     (let named = filter (\<lambda>row. truthy_key (row_key row) \<and> row_type row \<noteq> str ''array''
          \<and> row_type row \<noteq> str ''object'' \<and> row_key row = Some k) rs
      in if named = [] then None else Some (row_value (last named)))"
    by (simp add: last_value_def)
  have proto: "list_all (\<lambda>r. \<not> (scalar_row r \<and> row_key r = Some proto_key
        \<and> is_prototype (row_value r))) rs
      \<longrightarrow> map_of (object_of_rows rs) proto_key = None"
  proof
    assume "list_all (\<lambda>r. \<not> (scalar_row r \<and> row_key r = Some proto_key
        \<and> is_prototype (row_value r))) rs"
    from object_setter[OF this] show "map_of (object_of_rows rs) proto_key = None"
      by (simp add: object_of_rows_def map_of_eq_None_iff)
  qed
  from none empty single many val rows vals lastv object_ordered[of rs] proto
  show ?thesis by (intro conjI)
qed

text \<open>Three rows: \<open>a\<close> twice, and an array row \<open>b\<close> between them.\<close>

theorem buildContentFromNode_content_witness:
  "str ''a'' \<noteq> proto_key \<and>
   list_all (\<lambda>r. \<not> (scalar_row r \<and> row_key r = Some proto_key \<and> is_prototype (row_value r)))
     [\<lparr>row_key = Some (str ''a''), row_value = JNum (Dec 1 0), row_type = str ''number''\<rparr>,
      \<lparr>row_key = Some (str ''b''), row_value = JArr [], row_type = str ''array''\<rparr>,
      \<lparr>row_key = Some (str ''a''), row_value = JStr (str ''x''), row_type = str ''string''\<rparr>] \<and>
   buildContentFromNode (Some \<lparr>node_text =
     [\<lparr>row_key = Some (str ''a''), row_value = JNum (Dec 1 0), row_type = str ''number''\<rparr>,
      \<lparr>row_key = Some (str ''b''), row_value = JArr [], row_type = str ''array''\<rparr>,
      \<lparr>row_key = Some (str ''a''), row_value = JStr (str ''x''), row_type = str ''string''\<rparr>],
     node_path = None\<rparr>) = Some (str ''{'' @ [10] @ str ''  \"a\": \"x\"'' @ [10] @ str ''}'') \<and>
   map_of (object_of_rows
     [\<lparr>row_key = Some (str ''a''), row_value = JNum (Dec 1 0), row_type = str ''number''\<rparr>,
      \<lparr>row_key = Some (str ''b''), row_value = JArr [], row_type = str ''array''\<rparr>,
      \<lparr>row_key = Some (str ''a''), row_value = JStr (str ''x''), row_type = str ''string''\<rparr>])
     (str ''a'') = Some (JStr (str ''x''))"
  using buildContentFromNode_content[where
     r = "\<lparr>row_key = Some (str ''a''), row_value = JNum (Dec 1 0), row_type = str ''number''\<rparr>"
     and r' = "\<lparr>row_key = Some (str ''b''), row_value = JArr [], row_type = str ''array''\<rparr>"
     and rows = "[\<lparr>row_key = Some (str ''a''), row_value = JStr (str ''x''),
        row_type = str ''string''\<rparr>]"
     and rs = "[\<lparr>row_key = Some (str ''a''), row_value = JNum (Dec 1 0), row_type = str ''number''\<rparr>,
      \<lparr>row_key = Some (str ''b''), row_value = JArr [], row_type = str ''array''\<rparr>,
      \<lparr>row_key = Some (str ''a''), row_value = JStr (str ''x''), row_type = str ''string''\<rparr>]"
     and k = "str ''a''" and p = None and v = JNull]
  by (simp add: content_eval)

section \<open>The write of the store and of the modal\<close>

lemma store_try_parsed:
  assumes "JSON_parse current = Inr root"
  shows "store_try current path v = commit root path v (walk_store root (parent_keys path))"
  unfolding store_try_def commit_def parent_keys_def last_key_def Let_def
  using assms deep_clone_parsed[OF assms]
  by (simp split: completion.splits option.splits)


lemma store_try_malformed:
  "JSON_parse current = Inl e \<Longrightarrow> store_try current path v = Thrown e"
  by (simp add: store_try_def)



lemma walk_store_resolve:
  "walk_store v ks = (case resolve v ks of
       Resolved p \<Rightarrow> Normal p
     | Inherited \<Rightarrow> Beyond
     | Unresolved \<Rightarrow> walk_store v ks)"
  by (induction v ks rule: walk_store.induct) (auto split: completion.splits resolution.splits)


lemma get_prop_not_Returned: "get_prop v k \<noteq> Returned"
  by (cases v) (auto simp: get_prop_def split: option.splits)

lemma get_prop_Thrown: "get_prop v k = Thrown e \<Longrightarrow> e = TypeError"
  by (cases v) (auto simp: get_prop_def split: option.splits if_splits)

lemma walk_store_unresolved:
  "resolve v ks = Unresolved \<Longrightarrow> walk_store v ks = Returned \<or> walk_store v ks = Thrown TypeError"
proof (induction v ks rule: walk_store.induct)
  case (1 cursor)
  then show ?case by simp
next
  case (2 cursor key keys)
  show ?case
  proof (cases "get_prop cursor (property_key key)")
    case (Normal x)
    with 2 show ?thesis by (auto split: if_splits)
  next
    case Returned
    then show ?thesis by (simp add: get_prop_not_Returned)
  next
    case (Thrown e)
    then show ?thesis using get_prop_Thrown[OF Thrown] by simp
  next
    case Beyond
    with 2 show ?thesis by simp
  qed
qed


lemma updateValueAtPath_try:
  "path \<noteq> [] \<Longrightarrow> trim (json st) \<noteq> [] \<Longrightarrow>
   updateValueAtPath (Some path) v st =
     (case store_try (json st) path v of
        Normal s \<Rightarrow> Some (setJson s st) | Beyond \<Rightarrow> None | _ \<Rightarrow> Some st)"
  by (simp add: updateValueAtPath_def Let_def split: completion.splits)


text \<open>The definitions that evaluate a parse and a write on a given text.\<close>

lemmas parse_value_numeral =
  parse_value.simps(2)[of "pred_numeral k" for k, unfolded numeral_eq_Suc[symmetric]]
lemmas parse_elements_numeral =
  parse_elements.simps(2)[of "pred_numeral k" for k, unfolded numeral_eq_Suc[symmetric]]
lemmas parse_members_numeral =
  parse_members.simps(2)[of "pred_numeral k" for k, unfolded numeral_eq_Suc[symmetric]]

lemmas parse_eval =
  JSON_parse_def parse_value_numeral parse_elements_numeral parse_members_numeral
  str_def skip_ws_def is_ws_def expect_def parse_number_def parse_fraction_def
  parse_exponent_def is_digit_def nat_of_digits_def normalise_def strip_zeros.simps
  obj_set_def goes_before_def array_index_def cons_unit_def parse_chars.simps

lemmas write_eval =
  updateValueAtPath_def store_try_def deep_clone_def setJson_def trim_def is_js_space_def
  get_prop_def put_prop_def obj_assign_def proto_key_def length_key_def
  object_prototype_names_def identifier_like_def is_id_start_def array_set_length_def
  resize_def num_of_nat_def
  JSON_stringify_def gap_def QuoteJSONString_def quote_unit_def is_lead_def is_trail_def
  number_to_string_def digits.simps Let_def

lemma replace_at_defined:
  "root \<noteq> JUndefined \<Longrightarrow> new \<noteq> JUndefined \<Longrightarrow> replace_at root ks new \<noteq> JUndefined"
  by (cases ks; cases root) (auto split: option.splits)

lemma put_prop_defined: "put_prop c k v = Normal c' \<Longrightarrow> c' \<noteq> JUndefined"
  by (cases c) (auto simp: put_prop_def array_set_length_def
      split: option.splits jsval.splits number.splits if_splits)


lemma json_value_defined: "json_value v \<Longrightarrow> v \<noteq> JUndefined"
  by (simp add: json_value_def)

lemma stringify_defined: "v \<noteq> JUndefined \<Longrightarrow> \<exists>u. JSON_stringify v = Some u"
  using serialize_None[of "[]" v] by (cases "JSON_stringify v") (simp_all add: JSON_stringify_def)

text \<open>The outcome of the store's write on a document that parses.\<close>

lemma commit_resolved:
  assumes "root \<noteq> JUndefined"
  shows "commit root path v (Normal cursor) =
     (case put_prop cursor (last_key path) v of
        Normal c' \<Rightarrow> Normal (the (JSON_stringify (replace_at root (parent_keys path) c')))
      | Returned \<Rightarrow> Returned
      | Thrown e \<Rightarrow> Thrown e
      | Beyond \<Rightarrow> Beyond)"
proof (cases "put_prop cursor (last_key path) v")
  case (Normal c')
  from put_prop_defined[OF Normal] assms
  have "replace_at root (parent_keys path) c' \<noteq> JUndefined" by (rule replace_at_defined[rotated])
  from stringify_defined[OF this] Normal show ?thesis by (auto simp: commit_def)
qed (simp_all add: commit_def)

lemma store_try_outcome:
  assumes "JSON_parse current = Inr root"
  shows "store_try current path v =
     (case resolve root (parent_keys path) of
        Resolved cursor \<Rightarrow>
          (case put_prop cursor (last_key path) v of
             Normal c' \<Rightarrow> Normal (the (JSON_stringify (replace_at root (parent_keys path) c')))
           | Returned \<Rightarrow> Returned
           | Thrown e \<Rightarrow> Thrown e
           | Beyond \<Rightarrow> Beyond)
      | Inherited \<Rightarrow> Beyond
      | Unresolved \<Rightarrow>
          (if walk_store root (parent_keys path) = Returned then Returned else Thrown TypeError))"
proof -
  from JSON_parse_json_value[OF assms] have root: "root \<noteq> JUndefined"
    by (rule json_value_defined)
  show ?thesis
  proof (cases "resolve root (parent_keys path)")
    case (Resolved cursor)
    then have "walk_store root (parent_keys path) = Normal cursor"
      using walk_store_resolve[of root "parent_keys path"] by simp
    with Resolved show ?thesis
      by (simp add: store_try_parsed[OF assms] commit_resolved[OF root])
  next
    case Inherited
    then have "walk_store root (parent_keys path) = Beyond"
      using walk_store_resolve[of root "parent_keys path"] by simp
    with Inherited show ?thesis
      by (simp add: store_try_parsed[OF assms] commit_def)
  next
    case Unresolved
    from walk_store_unresolved[OF this] Unresolved show ?thesis
      by (auto simp: store_try_parsed[OF assms] commit_def)
  qed
qed












section \<open>The stored document after a write\<close>

lemma norm_undefined: "norm v = JUndefined \<longleftrightarrow> v = JUndefined"
  by (cases v) simp_all

lemma number_to_string_normalise: "number_to_string (normalise n) = number_to_string n"
  by (simp add: number_to_string_def normalise_idem)

lemma serialize_norm:
  "SerializeJSONProperty ind (norm v) = SerializeJSONProperty ind v"
  "SerializeJSONArray ind (norm_elems xs) = SerializeJSONArray ind xs"
  "SerializeJSONObject ind (norm_members kvs) = SerializeJSONObject ind kvs"
proof (induction ind v and ind xs and ind kvs
    rule: SerializeJSONProperty_SerializeJSONArray_SerializeJSONObject.induct)
  case (4 ind n)
  show ?case by (simp add: number_to_string_normalise)
next
  case (6 stepback xs)
  then show ?case by (simp add: Let_def)
next
  case (7 stepback kvs)
  then show ?case by (simp add: Let_def)
next
  case (9 ind x xs)
  then show ?case by (cases "x = JUndefined") (simp_all add: str_def)
next
  case (11 ind k v kvs)
  then show ?case
    using serialize_None[of ind v] by (cases "v = JUndefined") (auto split: option.splits)
qed simp_all

lemma stringify_norm: "JSON_stringify (norm v) = JSON_stringify v"
  by (simp add: JSON_stringify_def serialize_norm)

lemma stringify_canonical:
  assumes "well_formed t" "JSON_stringify t = Some u"
  shows "JSON_parse u = Inr (norm t) \<and> JSON_stringify (norm t) = Some u"
  using JSON_parse_stringify[OF assms] assms(2) by (simp add: stringify_norm)

lemma well_formed_elems_all: "well_formed_elems xs \<longleftrightarrow> list_all well_formed xs"
  by (induction xs) simp_all

lemma well_formed_members_all:
  "well_formed_members kvs \<longleftrightarrow> list_all (\<lambda>kv. well_formed (snd kv)) kvs"
  by (induction kvs) auto

lemma map_of_well_formed:
  "well_formed_members kvs \<Longrightarrow> map_of kvs k = Some x \<Longrightarrow> well_formed x"
  by (auto simp: well_formed_members_all list_all_iff dest!: map_of_SomeD)

lemma get_prop_well_formed:
  assumes "well_formed c" "get_prop c k = Normal x"
  shows "well_formed x"
proof (cases c)
  case (JArr xs)
  with assms show ?thesis
    by (auto simp: get_prop_def well_formed_elems_all list_all_length
        split: option.splits if_splits)
next
  case (JObj kvs)
  with assms show ?thesis
    by (auto simp: get_prop_def map_of_well_formed split: option.splits if_splits)
qed (use assms in \<open>auto simp: get_prop_def split: option.splits if_splits\<close>)

lemma resolve_well_formed:
  "well_formed v \<Longrightarrow> resolve v ks = Resolved p \<Longrightarrow> well_formed p"
proof (induction v ks rule: resolve.induct)
  case (1 v)
  then show ?case by simp
next
  case (2 v k ks)
  then show ?case
    using get_prop_well_formed[of v "property_key k"]
    by (auto split: completion.splits if_splits)
qed

lemma obj_set_well_formed:
  assumes "well_formed_members kvs" "well_formed v"
  shows "well_formed_members (obj_set k v kvs)"
  unfolding well_formed_members_all list_all_iff
proof
  fix kv assume "kv \<in> set (obj_set k v kvs)"
  then have "(fst kv, snd kv) \<in> set (obj_set k v kvs)" by simp
  from obj_set_values[OF this] assms show "well_formed (snd kv)"
    by (auto simp: well_formed_members_all list_all_iff)
qed

lemma put_prop_well_formed:
  assumes "well_formed c" "well_formed v" "put_prop c k v = Normal c'"
  shows "well_formed c'"
proof (cases c)
  case (JArr xs)
  from assms(1) JArr have xs: "list_all well_formed xs" by (simp add: well_formed_elems_all)
  then have upd: "\<And>i. list_all well_formed (xs[i := v])"
    using assms(2) by (auto simp: list_all_iff dest!: subsetD[OF set_update_subset_insert])
  have tk: "\<And>n. list_all well_formed (take n xs)"
    using xs by (auto simp: list_all_iff dest: in_set_takeD)
  from assms(3) JArr xs assms(2) upd tk show ?thesis
    by (auto simp: put_prop_def array_set_length_def resize_def well_formed_elems_all
        list_all_iff split: option.splits jsval.splits number.splits if_splits)
next
  case (JObj kvs)
  with assms show ?thesis
    by (auto simp: put_prop_def obj_assign_def obj_set_ordered obj_set_well_formed
        simp del: map_map)
qed (use assms in \<open>auto simp: put_prop_def split: if_splits\<close>)

lemma replace_at_well_formed:
  "well_formed root \<Longrightarrow> well_formed new \<Longrightarrow> well_formed (replace_at root ks new)"
proof (induction ks arbitrary: root)
  case Nil
  then show ?case by simp
next
  case (Cons k ks)
  show ?case
  proof (cases root)
    case (JArr xs)
    from Cons.prems(1) JArr have xs: "list_all well_formed xs"
      by (simp add: well_formed_elems_all)
    show ?thesis
    proof (cases "array_index (property_key k)")
      case None
      with JArr Cons.prems show ?thesis by simp
    next
      case (Some i)
      show ?thesis
      proof (cases "i < length xs")
        case True
        with xs have "well_formed (xs ! i)" by (simp add: list_all_length)
        from Cons.IH[OF this Cons.prems(2)] xs
        have "list_all well_formed (xs[i := replace_at (xs ! i) ks new])"
          by (auto simp: list_all_iff dest!: subsetD[OF set_update_subset_insert])
        with JArr Some True show ?thesis by (simp add: well_formed_elems_all)
      next
        case False
        with JArr Some Cons.prems show ?thesis by simp
      qed
    qed
  next
    case (JObj kvs)
    let ?f = "\<lambda>(k', v). if k' = property_key k then (k', replace_at v ks new) else (k', v)"
    have keys: "map fst (map ?f kvs) = map fst kvs" by (induction kvs) auto
    from Cons.prems(1) JObj have "list_all (\<lambda>kv. well_formed (snd kv)) kvs"
      by (simp add: well_formed_members_all)
    then have "list_all (\<lambda>kv. well_formed (snd kv)) (map ?f kvs)"
      using Cons.IH[OF _ Cons.prems(2)] by (auto simp: list_all_iff)
    with Cons.prems(1) JObj keys show ?thesis
      by (simp add: well_formed_members_all del: map_map)
  qed (use Cons.prems in simp_all)
qed

lemma json_value_well_formed: "json_value v \<Longrightarrow> well_formed v"
  by (simp add: json_value_def)

lemma store_try_written:
  assumes "store_try current path v = Normal u" "well_formed v"
  shows "\<exists>root cursor c'. JSON_parse current = Inr root
      \<and> resolve root (parent_keys path) = Resolved cursor
      \<and> put_prop cursor (last_key path) v = Normal c'
      \<and> well_formed (replace_at root (parent_keys path) c')
      \<and> JSON_stringify (replace_at root (parent_keys path) c') = Some u"
proof (cases "JSON_parse current")
  case (Inl e)
  with assms show ?thesis by (simp add: store_try_malformed)
next
  case (Inr root)
  have wf: "well_formed root" using JSON_parse_json_value[OF Inr] by (rule json_value_well_formed)
  have root: "root \<noteq> JUndefined" using JSON_parse_json_value[OF Inr] by (rule json_value_defined)
  from assms(1) obtain cursor c' where
    r: "resolve root (parent_keys path) = Resolved cursor"
    and p: "put_prop cursor (last_key path) v = Normal c'"
    and u: "u = the (JSON_stringify (replace_at root (parent_keys path) c'))"
    unfolding store_try_outcome[OF Inr]
    by (auto split: resolution.splits completion.splits if_splits)
  have "well_formed c'"
    using put_prop_well_formed[OF resolve_well_formed[OF wf r] assms(2) p] .
  then have w: "well_formed (replace_at root (parent_keys path) c')"
    by (rule replace_at_well_formed[OF wf])
  have "replace_at root (parent_keys path) c' \<noteq> JUndefined"
    using replace_at_defined[OF root put_prop_defined[OF p]] .
  from stringify_defined[OF this] u
  have "JSON_stringify (replace_at root (parent_keys path) c') = Some u" by auto
  with Inr r p w show ?thesis by blast
qed

text \<open>
  C9. After a successful \<open>updateValueAtPath\<close> the stored text is the serialization, with
  an indent of two spaces, of its own parse. The new value is a value as the model
  represents them, the keys of its objects listed once and in enumeration order.
\<close>

theorem stored_document_canonical:
  assumes "trim (json st) \<noteq> []" and "path \<noteq> []" and "well_formed newValue"
    and "store_try (json st) path newValue = Normal u"
  shows "updateValueAtPath (Some path) newValue st = Some (setJson u st) \<and>
    json (setJson u st) = u \<and>
    (case JSON_parse u of Inl e \<Rightarrow> False | Inr t \<Rightarrow> JSON_stringify t = Some u)"
proof -
  from store_try_written[OF assms(4,3)] obtain t where
    t: "well_formed t" "JSON_stringify t = Some u" by blast
  from stringify_canonical[OF t]
  have c: "case JSON_parse u of Inl e \<Rightarrow> False | Inr t \<Rightarrow> JSON_stringify t = Some u"
    by simp
  have a: "updateValueAtPath (Some path) newValue st = Some (setJson u st)"
    using updateValueAtPath_try[OF assms(2,1), of newValue] assms(4) by simp
  have b: "json (setJson u st) = u" by (simp add: setJson_def)
  from a b c show ?thesis by (intro conjI)
qed

text \<open>
  A document with a leading space, a space before a colon and a trailing zero; the write
  extends the array past its end.
\<close>

theorem stored_document_canonical_witness:
  "trim (str '' {\"b\" :[1,2], \"a\":1.50}'') \<noteq> [] \<and> [SStr (str ''b''), SNum (Dec 3 0)] \<noteq> [] \<and>
   well_formed (JBool True) \<and>
   store_try (str '' {\"b\" :[1,2], \"a\":1.50}'') [SStr (str ''b''), SNum (Dec 3 0)] (JBool True)
     = Normal (str ''{'' @ [10] @ str ''  \"b\": ['' @ [10] @ str ''    1,'' @ [10]
         @ str ''    2,'' @ [10] @ str ''    null,'' @ [10] @ str ''    true'' @ [10]
         @ str ''  ],'' @ [10] @ str ''  \"a\": 1.5'' @ [10] @ str ''}'') \<and>
   JSON_stringify (JObj [(str ''b'', JArr [JNum (Dec 1 0), JNum (Dec 2 0), JNull, JBool True]),
       (str ''a'', JNum (Dec 15 (- 1)))])
     = Some (str ''{'' @ [10] @ str ''  \"b\": ['' @ [10] @ str ''    1,'' @ [10]
         @ str ''    2,'' @ [10] @ str ''    null,'' @ [10] @ str ''    true'' @ [10]
         @ str ''  ],'' @ [10] @ str ''  \"a\": 1.5'' @ [10] @ str ''}'')"
  using stored_document_canonical[where
      st = "\<lparr>json = str '' {\"b\" :[1,2], \"a\":1.50}'', loading = False, graph = []\<rparr>"
      and path = "[SStr (str ''b''), SNum (Dec 3 0)]" and newValue = "JBool True"
      and u = "str ''{'' @ [10] @ str ''  \"b\": ['' @ [10] @ str ''    1,'' @ [10]
         @ str ''    2,'' @ [10] @ str ''    null,'' @ [10] @ str ''    true'' @ [10]
         @ str ''  ],'' @ [10] @ str ''  \"a\": 1.5'' @ [10] @ str ''}''"]
  by (simp add: parse_eval write_eval)

section \<open>The write follows the specification\<close>









section \<open>Reading what was written\<close>

















lemma json_value_children:
  "json_value parent \<Longrightarrow>
   list_all (\<lambda>x. x \<noteq> JUndefined)
     (case parent of JArr xs \<Rightarrow> xs | JObj kvs \<Rightarrow> map snd kvs | _ \<Rightarrow> [])"
  by (cases parent)
    (auto simp: json_value_JArr json_value_JObj list_all_iff json_value_defined)

lemma json_value_num_of_nat: "json_value (JNum (num_of_nat n))"
  by (simp add: json_value_def num_of_nat_def normalise_idem)

lemma get_prop_json_value:
  assumes "json_value c" "get_prop c k = Normal x" "x \<noteq> JUndefined"
  shows "json_value x"
proof (cases c)
  case (JArr xs)
  from assms(1) JArr have all: "list_all json_value xs" by (simp add: json_value_JArr)
  show ?thesis
  proof (cases "array_index k")
    case None
    with assms(2,3) JArr show ?thesis
      by (auto simp: get_prop_def json_value_num_of_nat split: if_splits)
  next
    case (Some i)
    with assms(2,3) JArr all show ?thesis
      by (auto simp: get_prop_def list_all_length split: if_splits)
  qed
next
  case (JObj kvs)
  from assms(1) JObj have all: "list_all (\<lambda>kv. json_value (snd kv)) kvs"
    by (simp add: json_value_JObj)
  from assms(2,3) JObj have "map_of kvs k = Some x"
    by (auto simp: get_prop_def split: option.splits if_splits)
  then have "(k, x) \<in> set kvs" by (rule map_of_SomeD)
  with all show ?thesis by (auto simp: list_all_iff)
next
  case (JStr s)
  have "\<And>c. json_value (JStr c)" by (simp add: json_value_def)
  with assms(2,3) JStr show ?thesis
    by (auto simp: get_prop_def json_value_num_of_nat split: option.splits if_splits)
qed (use assms(2,3) in \<open>auto simp: get_prop_def split: option.splits if_splits\<close>)

lemma resolve_json_value:
  "json_value v \<Longrightarrow> resolve v ks = Resolved p \<Longrightarrow> json_value p"
proof (induction v ks rule: resolve.induct)
  case (1 v)
  then show ?case by simp
next
  case (2 v k ks)
  then show ?case
    using get_prop_json_value[of v "property_key k"]
    by (auto split: completion.splits if_splits)
qed







section \<open>Paths that resolve and paths that do not\<close>









end
